theory Spec2Isabelle
  imports Complex_Main "HOL-Library.Log_Nat"
begin

section \<open>Strings and characters\<close>

text \<open>
  A JavaScript string is modelled as a \<open>string\<close>: a list of code units, here restricted
  to the code units below 256.  The character classes below are the ones the regular
  expressions and \<open>String.prototype.trim\<close> of the program use.
\<close>

definition code :: "char \<Rightarrow> int" where
  "code c = of_char c"

definition isDigit :: "char \<Rightarrow> bool" where
  \<comment> \<open>\<open>\d\<close> and \<open>[0-9]\<close>\<close>
  "isDigit c = (48 \<le> code c \<and> code c \<le> 57)"

definition isUpper :: "char \<Rightarrow> bool" where
  "isUpper c = (65 \<le> code c \<and> code c \<le> 90)"

definition isLower :: "char \<Rightarrow> bool" where
  "isLower c = (97 \<le> code c \<and> code c \<le> 122)"

definition isWordChar :: "char \<Rightarrow> bool" where
  \<comment> \<open>\<open>\w\<close>, which decides the word boundary \<open>\b\<close>\<close>
  "isWordChar c = (isUpper c \<or> isLower c \<or> isDigit c \<or> c = CHR ''_'')"

definition isSpace :: "char \<Rightarrow> bool" where
  \<comment> \<open>\<open>\s\<close>, and what \<open>trim\<close> strips: TAB, LF, VT, FF, CR, SP, NBSP\<close>
  "isSpace c = (code c \<in> {9, 10, 11, 12, 13, 32, 160})"

definition isLineTerminator :: "char \<Rightarrow> bool" where
  \<comment> \<open>what \<open>.\<close> refuses\<close>
  "isLineTerminator c = (code c = 10 \<or> code c = 13)"

definition isHeaderChar :: "char \<Rightarrow> bool" where
  \<comment> \<open>\<open>[A-Za-z0-9._-]\<close>\<close>
  "isHeaderChar c = (isUpper c \<or> isLower c \<or> isDigit c
                       \<or> c = CHR ''.'' \<or> c = CHR ''_'' \<or> c = CHR ''-'')"

definition canonicalize :: "char \<Rightarrow> char" where
  \<comment> \<open>case folding of the \<open>i\<close> flag; the patterns compare it with ASCII characters only\<close>
  "canonicalize c = (if isLower c then char_of (code c - 32) else c)"

definition toLowerChar :: "char \<Rightarrow> char" where
  "toLowerChar c =
     (if isUpper c \<or> (192 \<le> code c \<and> code c \<le> 222 \<and> code c \<noteq> 215)
      then char_of (code c + 32) else c)"

definition toLowerCase :: "string \<Rightarrow> string" where
  "toLowerCase s = map toLowerChar s"

definition trimStart :: "string \<Rightarrow> string" where
  "trimStart s = dropWhile isSpace s"

definition trimEnd :: "string \<Rightarrow> string" where
  "trimEnd s = rev (dropWhile isSpace (rev s))"

definition trim :: "string \<Rightarrow> string" where
  "trim s = trimEnd (trimStart s)"

fun startsWith :: "string \<Rightarrow> string \<Rightarrow> bool" where
  "startsWith s [] = True"
| "startsWith [] (p # ps) = False"
| "startsWith (c # cs) (p # ps) = (c = p \<and> startsWith cs ps)"

section \<open>Regular expressions\<close>

text \<open>
  The regular expressions of the program are run by a backtracking matcher that returns
  every way to match, in the order in which the JavaScript matcher tries them: the head of
  the list is the match JavaScript reports.  A matcher state is the text before the
  current position (reversed), the text after it, and the captures made so far.
\<close>

datatype regex =
    Eps
  | Chr "char \<Rightarrow> bool"
  | Seq regex regex
  | Alt regex regex
  | Star regex
  | Group nat regex
  | Bol
  | Eol
  | WordB

type_synonym mstate = "string \<times> string \<times> (nat \<times> string) list"

definition bef :: "mstate \<Rightarrow> string" where
  "bef s = fst s"

definition aft :: "mstate \<Rightarrow> string" where
  "aft s = fst (snd s)"

definition caps :: "mstate \<Rightarrow> (nat \<times> string) list" where
  "caps s = snd (snd s)"

definition atWordBoundary :: "mstate \<Rightarrow> bool" where
  "atWordBoundary s =
     ((case bef s of [] \<Rightarrow> False | c # _ \<Rightarrow> isWordChar c)
      \<noteq> (case aft s of [] \<Rightarrow> False | c # _ \<Rightarrow> isWordChar c))"

definition consumed :: "mstate \<Rightarrow> mstate \<Rightarrow> string" where
  \<comment> \<open>the text between an earlier state and a later one\<close>
  "consumed s s' = take (length (aft s) - length (aft s')) (aft s)"

primrec iter :: "nat \<Rightarrow> (mstate \<Rightarrow> mstate list) \<Rightarrow> mstate \<Rightarrow> mstate list" where
  "iter 0 f s = [s]"
| "iter (Suc n) f s =
     concat (map (iter n f) (filter (\<lambda>s'. length (aft s') < length (aft s)) (f s))) @ [s]"

primrec matchR :: "regex \<Rightarrow> mstate \<Rightarrow> mstate list" where
  "matchR Eps = (\<lambda>s. [s])"
| "matchR (Chr P) = (\<lambda>s. case aft s of [] \<Rightarrow> []
                          | c # cs \<Rightarrow> if P c then [(c # bef s, cs, caps s)] else [])"
| "matchR (Seq r1 r2) = (\<lambda>s. concat (map (matchR r2) (matchR r1 s)))"
| "matchR (Alt r1 r2) = (\<lambda>s. matchR r1 s @ matchR r2 s)"
| "matchR (Star r) = (\<lambda>s. iter (length (aft s)) (matchR r) s)"
| "matchR (Group i r) =
     (\<lambda>s. map (\<lambda>s'. (bef s', aft s', (i, consumed s s') # caps s')) (matchR r s))"
| "matchR Bol = (\<lambda>s. if bef s = [] then [s] else [])"
| "matchR Eol = (\<lambda>s. if aft s = [] then [s] else [])"
| "matchR WordB = (\<lambda>s. if atWordBoundary s then [s] else [])"

definition Plus :: "regex \<Rightarrow> regex" where
  "Plus r = Seq r (Star r)"

definition Opt :: "regex \<Rightarrow> regex" where
  "Opt r = Alt r Eps"

definition Lit :: "string \<Rightarrow> regex" where
  "Lit s = foldr (\<lambda>c r. Seq (Chr (\<lambda>x. x = c)) r) s Eps"

definition LitI :: "string \<Rightarrow> regex" where
  \<comment> \<open>a literal under the \<open>i\<close> flag\<close>
  "LitI s = foldr (\<lambda>c r. Seq (Chr (\<lambda>x. canonicalize x = canonicalize c)) r) s Eps"

fun Alts :: "regex list \<Rightarrow> regex" where
  "Alts [] = Chr (\<lambda>_. False)"
| "Alts [r] = r"
| "Alts (r # rs) = Alt r (Alts rs)"

subsection \<open>The string methods that take a regular expression\<close>

text \<open>
  \<open>search r b a\<close> looks for the leftmost match at or after the position between \<open>b\<close>
  (reversed) and \<open>a\<close>; it returns the state where the match starts and the state where
  it ends.
\<close>

fun search :: "regex \<Rightarrow> string \<Rightarrow> string \<Rightarrow> (mstate \<times> mstate) option" where
  "search r b [] =
     (case matchR r (b, [], []) of [] \<Rightarrow> None | e # _ \<Rightarrow> Some ((b, [], []), e))"
| "search r b (c # cs) =
     (case matchR r (b, c # cs, []) of [] \<Rightarrow> search r (c # b) cs
      | e # _ \<Rightarrow> Some ((b, c # cs, []), e))"

definition matchGroup :: "(mstate \<times> mstate) \<Rightarrow> nat \<Rightarrow> string option" where
  \<comment> \<open>\<open>m[i]\<close> of a match array: \<open>m[0]\<close> is the matched text, \<open>None\<close> is \<open>undefined\<close>\<close>
  "matchGroup m i =
     (if i = 0 then Some (consumed (fst m) (snd m)) else map_of (caps (snd m)) i)"

definition re_match :: "regex \<Rightarrow> string \<Rightarrow> (mstate \<times> mstate) option" where
  \<comment> \<open>\<open>s.match(r)\<close> without the \<open>g\<close> flag; \<open>None\<close> is \<open>null\<close>\<close>
  "re_match r s = search r [] s"

definition re_test :: "regex \<Rightarrow> string \<Rightarrow> bool" where
  \<comment> \<open>\<open>r.test(s)\<close>\<close>
  "re_test r s = (search r [] s \<noteq> None)"

function match_g :: "regex \<Rightarrow> string \<Rightarrow> string \<Rightarrow> string list" where
  "match_g r b [] = (case matchR r (b, [], []) of [] \<Rightarrow> [] | e # _ \<Rightarrow> [[]])"
| "match_g r b (c # cs) =
     (case matchR r (b, c # cs, []) of [] \<Rightarrow> match_g r (c # b) cs
      | e # _ \<Rightarrow>
          if length (aft e) < length (c # cs)
          then consumed (b, c # cs, []) e # match_g r (bef e) (aft e)
          else [] # match_g r (c # b) cs)"
  by pat_completeness auto
termination
  by (relation "measure (\<lambda>(r, b, a). length a)") auto

definition re_match_g :: "regex \<Rightarrow> string \<Rightarrow> string list option" where
  \<comment> \<open>\<open>s.match(r)\<close> with the \<open>g\<close> flag: every matched text, \<open>null\<close> when there is none\<close>
  "re_match_g r s = (case match_g r [] s of [] \<Rightarrow> None | ms \<Rightarrow> Some ms)"

function replace_g :: "regex \<Rightarrow> string \<Rightarrow> string \<Rightarrow> string \<Rightarrow> string" where
  "replace_g r rep b [] = (case matchR r (b, [], []) of [] \<Rightarrow> [] | e # _ \<Rightarrow> rep)"
| "replace_g r rep b (c # cs) =
     (case matchR r (b, c # cs, []) of [] \<Rightarrow> c # replace_g r rep (c # b) cs
      | e # _ \<Rightarrow>
          if length (aft e) < length (c # cs)
          then rep @ replace_g r rep (bef e) (aft e)
          else rep @ c # replace_g r rep (c # b) cs)"
  by pat_completeness auto
termination
  by (relation "measure (\<lambda>(r, rep, b, a). length a)") auto

definition re_replace_g :: "regex \<Rightarrow> string \<Rightarrow> string \<Rightarrow> string" where
  \<comment> \<open>\<open>s.replace(r, rep)\<close> with the \<open>g\<close> flag, \<open>rep\<close> without \<open>$\<close> patterns\<close>
  "re_replace_g r rep s = replace_g r rep [] s"

definition re_replace :: "regex \<Rightarrow> string \<Rightarrow> string \<Rightarrow> string" where
  \<comment> \<open>\<open>s.replace(r, rep)\<close> without the \<open>g\<close> flag: the first match only\<close>
  "re_replace r rep s =
     (case search r [] s of None \<Rightarrow> s
      | Some (st, e) \<Rightarrow> rev (bef st) @ rep @ aft e)"

function split_go :: "regex \<Rightarrow> string \<Rightarrow> string \<Rightarrow> string \<Rightarrow> string list" where
  "split_go r b cur [] = [rev cur]"
| "split_go r b cur (c # cs) =
     (case matchR r (b, c # cs, []) of [] \<Rightarrow> split_go r (c # b) (c # cur) cs
      | e # _ \<Rightarrow>
          if length (aft e) < length (c # cs)
          then rev cur # split_go r (bef e) [] (aft e)
          else if cur = [] then split_go r (c # b) [c] cs
          else rev cur # split_go r (c # b) [c] cs)"
  by pat_completeness auto
termination
  by (relation "measure (\<lambda>(r, b, cur, a). length a)") auto

definition re_split :: "regex \<Rightarrow> string \<Rightarrow> string list" where
  \<comment> \<open>\<open>s.split(r)\<close> for a pattern without groups; \<open>cur\<close> is the piece being read\<close>
  "re_split r s =
     (if s = [] then (case matchR r ([], [], []) of [] \<Rightarrow> [[]] | e # _ \<Rightarrow> [])
      else split_go r [] [] s)"

section \<open>Numbers\<close>

text \<open>
  A JavaScript number is an IEEE 754 double.  It is modelled by its value: \<open>Fin q\<close> for a
  finite number of value \<open>q\<close>, \<open>PosInf\<close> and \<open>NegInf\<close> for the two infinities, and \<open>NaN\<close>.
  The two zeros are not told apart.  \<open>None\<close> of type \<open>jsnum option\<close> is \<open>null\<close>.

  \<open>Number\<close> applied to a decimal text gives the double nearest to the value of the text
  (ties to the even significand), and an infinity from \<open>2^1024 - 2^970\<close> on:
  \<open>toDouble\<close>.  This is the conversion of the engines, which round the whole text
  correctly; the language standard also allows one that drops the digits after the
  twentieth.  The duration parser is kept in exact arithmetic: \<open>parseFloat\<close> and the
  sums, products and quotients of finite numbers are not rounded.
\<close>

datatype jsnum = Fin rat | PosInf | NegInf | NaN

definition pow2 :: "int \<Rightarrow> rat" where
  \<comment> \<open>2 to an integer power\<close>
  "pow2 e = (if 0 \<le> e then of_int (2 ^ nat e) else 1 / of_int (2 ^ nat (- e)))"

definition floorLog2 :: "rat \<Rightarrow> int" where
  \<comment> \<open>for \<open>0 < q\<close>, the \<open>e\<close> with \<open>2^e \<le> q < 2^(e+1)\<close>\<close>
  "floorLog2 q = (if 1 \<le> q then bitlen \<lfloor>q\<rfloor> - 1 else - bitlen (\<lceil>1 / q\<rceil> - 1))"

definition roundHalfEven :: "rat \<Rightarrow> int" where
  \<comment> \<open>the nearest integer, the even one of two that are equally near\<close>
  "roundHalfEven x =
     (let f = \<lfloor>x\<rfloor>; d = x - of_int f
      in if d < 1 / 2 then f else if 1 / 2 < d then f + 1 else if even f then f else f + 1)"

definition overflowBound :: rat where
  \<comment> \<open>half way between the largest double and \<open>2^1024\<close>: from here on a value rounds to
      an infinity\<close>
  "overflowBound = of_int (2 ^ 1024 - 2 ^ 970)"

definition toDouble :: "rat \<Rightarrow> jsnum" where
  \<comment> \<open>rounding to a double: 53 bits of significand, the exponent not below -1022\<close>
  "toDouble q =
     (if q = 0 then Fin 0
      else if overflowBound \<le> \<bar>q\<bar> then (if 0 < q then PosInf else NegInf)
      else let e = max (floorLog2 \<bar>q\<bar>) (- 1022);
               ulp = pow2 (e - 52);
               m = roundHalfEven (\<bar>q\<bar> / ulp)
           in Fin (sgn q * of_int m * ulp))"

definition digitVal :: "char \<Rightarrow> int" where
  "digitVal c = code c - 48"

definition decNat :: "string \<Rightarrow> int" where
  "decNat ds = foldl (\<lambda>a c. 10 * a + digitVal c) 0 ds"

definition unsignedDecimal :: "string \<Rightarrow> rat option" where
  \<comment> \<open>digits, then optionally a point and digits\<close>
  "unsignedDecimal s =
     (let ip = takeWhile isDigit s; rest = dropWhile isDigit s in
      if ip = [] then None
      else case rest of
             [] \<Rightarrow> Some (of_int (decNat ip))
           | c # fp \<Rightarrow>
               if c = CHR ''.'' \<and> fp \<noteq> [] \<and> list_all isDigit fp
               then Some (of_int (decNat ip) + of_int (decNat fp) / 10 ^ length fp)
               else None)"

definition decimalLiteral :: "string \<Rightarrow> rat option" where
  \<comment> \<open>an optional minus sign, then an unsigned decimal\<close>
  "decimalLiteral s =
     (case s of
        [] \<Rightarrow> None
      | c # cs \<Rightarrow> if c = CHR ''-'' then map_option uminus (unsignedDecimal cs)
                  else unsignedDecimal s)"

definition Number_str :: "string \<Rightarrow> jsnum" where
  \<comment> \<open>\<open>Number(s)\<close> for a string.  The program passes it only texts matched by
      \<open>-?\d+(?:\.\d+)?\<close> or \<open>\d+\<close> (lemmas \<open>numberTokens_literal\<close>,
      \<open>rate_is_number\<close>, \<open>Number_str_digits\<close>); the other literal forms of
      JavaScript (exponents, hexadecimal, surrounding blanks, the empty string) are not
      modelled and give \<open>NaN\<close> here.\<close>
  "Number_str s = (case decimalLiteral s of None \<Rightarrow> NaN | Some q \<Rightarrow> toDouble q)"

definition Number_undef :: "string option \<Rightarrow> jsnum" where
  \<comment> \<open>\<open>Number(x)\<close> where \<open>x\<close> is a string or \<open>undefined\<close>, and \<open>Number(undefined)\<close> is NaN\<close>
  "Number_undef x = (case x of None \<Rightarrow> NaN | Some s \<Rightarrow> Number_str s)"

definition Number_null :: "jsnum option \<Rightarrow> jsnum" where
  \<comment> \<open>\<open>Number(x)\<close> where \<open>x\<close> is a number or \<open>null\<close>, and \<open>Number(null)\<close> is 0\<close>
  "Number_null x = (case x of None \<Rightarrow> Fin 0 | Some n \<Rightarrow> n)"

definition parseFloat :: "string \<Rightarrow> jsnum" where
  \<comment> \<open>\<open>parseFloat(s)\<close>, not rounded.  The program passes it only texts matched by
      \<open>[0-9]+(?:\.[0-9]+)?\<close> (lemma \<open>group1_unit\<close>), which it reads whole.\<close>
  "parseFloat s = (case unsignedDecimal s of None \<Rightarrow> NaN | Some q \<Rightarrow> Fin q)"

definition isFinite :: "jsnum \<Rightarrow> bool" where
  \<comment> \<open>\<open>Number.isFinite\<close>\<close>
  "isFinite n = (case n of Fin _ \<Rightarrow> True | _ \<Rightarrow> False)"

definition isNaN :: "jsnum \<Rightarrow> bool" where
  \<comment> \<open>\<open>Number.isNaN\<close>\<close>
  "isNaN n = (n = NaN)"

definition num_neg :: "jsnum \<Rightarrow> jsnum" where
  "num_neg n = (case n of Fin a \<Rightarrow> Fin (- a) | PosInf \<Rightarrow> NegInf | NegInf \<Rightarrow> PosInf
                | NaN \<Rightarrow> NaN)"

definition signOf :: "jsnum \<Rightarrow> rat" where
  \<comment> \<open>1, 0 or -1; 0 for NaN\<close>
  "signOf n = (case n of Fin a \<Rightarrow> sgn a | PosInf \<Rightarrow> 1 | NegInf \<Rightarrow> - 1 | NaN \<Rightarrow> 0)"

definition infinityOf :: "rat \<Rightarrow> jsnum" where
  \<comment> \<open>the infinity of a sign; NaN where the operation has no sign to give\<close>
  "infinityOf s = (if 0 < s then PosInf else if s < 0 then NegInf else NaN)"

fun num_add :: "jsnum \<Rightarrow> jsnum \<Rightarrow> jsnum" where
  "num_add (Fin a) (Fin b) = Fin (a + b)"
| "num_add NaN _ = NaN"
| "num_add _ NaN = NaN"
| "num_add PosInf NegInf = NaN"
| "num_add NegInf PosInf = NaN"
| "num_add PosInf _ = PosInf"
| "num_add NegInf _ = NegInf"
| "num_add (Fin a) b = b"

fun num_sub :: "jsnum \<Rightarrow> jsnum \<Rightarrow> jsnum" where
  "num_sub (Fin a) (Fin b) = Fin (a - b)"
| "num_sub NaN _ = NaN"
| "num_sub _ NaN = NaN"
| "num_sub PosInf PosInf = NaN"
| "num_sub NegInf NegInf = NaN"
| "num_sub PosInf _ = PosInf"
| "num_sub NegInf _ = NegInf"
| "num_sub (Fin a) b = num_neg b"

fun num_mul :: "jsnum \<Rightarrow> jsnum \<Rightarrow> jsnum" where
  "num_mul (Fin a) (Fin b) = Fin (a * b)"
| "num_mul NaN _ = NaN"
| "num_mul _ NaN = NaN"
| "num_mul a b = infinityOf (signOf a * signOf b)"

fun num_div :: "jsnum \<Rightarrow> jsnum \<Rightarrow> jsnum" where
  \<comment> \<open>the program divides by the constant 1000 only\<close>
  "num_div (Fin a) (Fin b) = (if b = 0 then infinityOf (sgn a) else Fin (a / b))"
| "num_div NaN _ = NaN"
| "num_div _ NaN = NaN"
| "num_div (Fin a) _ = Fin 0"
| "num_div a (Fin b) = infinityOf (signOf a * (if b < 0 then - 1 else 1))"
| "num_div _ _ = NaN"

definition truthy_num :: "jsnum \<Rightarrow> bool" where
  \<comment> \<open>a number is falsy when it is 0 or NaN\<close>
  "truthy_num n = (case n of Fin q \<Rightarrow> q \<noteq> 0 | NaN \<Rightarrow> False | _ \<Rightarrow> True)"

definition truthy_str :: "string option \<Rightarrow> bool" where
  \<comment> \<open>a string is falsy when it is empty; \<open>None\<close> is \<open>null\<close> or \<open>undefined\<close>\<close>
  "truthy_str x = (case x of None \<Rightarrow> False | Some s \<Rightarrow> s \<noteq> [])"

section \<open>The duration parser\<close>

definition unsignedNumberRe :: regex where
  \<comment> \<open>\<open>[0-9]+(?:\.[0-9]+)?\<close>\<close>
  "unsignedNumberRe =
     Seq (Plus (Chr isDigit)) (Opt (Seq (Lit ''.'') (Plus (Chr isDigit))))"

definition minRe :: regex where
  \<comment> \<open>\<open>/([0-9]+(?:\.[0-9]+)?)m/\<close>\<close>
  "minRe = Seq (Group 1 unsignedNumberRe) (Lit ''m'')"

definition secRe :: regex where
  \<comment> \<open>\<open>/([0-9]+(?:\.[0-9]+)?)s/\<close>\<close>
  "secRe = Seq (Group 1 unsignedNumberRe) (Lit ''s'')"

definition msRe :: regex where
  \<comment> \<open>\<open>/([0-9]+(?:\.[0-9]+)?)ms/\<close>\<close>
  "msRe = Seq (Group 1 unsignedNumberRe) (Lit ''ms'')"

definition group1 :: "(mstate \<times> mstate) \<Rightarrow> string" where
  \<comment> \<open>\<open>m[1]\<close> of a match whose pattern always captures group 1\<close>
  "group1 m = (case matchGroup m 1 of None \<Rightarrow> [] | Some g \<Rightarrow> g)"

definition durationSeconds :: "string \<Rightarrow> jsnum" where
  \<comment> \<open>the variable \<open>seconds\<close> of \<open>parseDurationToSeconds\<close> at its \<open>return\<close>\<close>
  "durationSeconds s =
     (let minMatch = re_match minRe s;
          secMatch = re_match secRe s;
          msMatch = re_match msRe s;
          seconds = Fin 0;
          seconds = (case minMatch of None \<Rightarrow> seconds
                     | Some m \<Rightarrow> num_add seconds (num_mul (parseFloat (group1 m)) (Fin 60)));
          seconds = (case secMatch of None \<Rightarrow> seconds
                     | Some m \<Rightarrow> num_add seconds (parseFloat (group1 m)));
          seconds = (case (secMatch, msMatch) of
                       (None, Some m) \<Rightarrow>
                          num_add seconds (num_div (parseFloat (group1 m)) (Fin 1000))
                     | _ \<Rightarrow> seconds)
      in seconds)"

definition parseDurationToSeconds :: "string option \<Rightarrow> jsnum option" where
  "parseDurationToSeconds raw =
     (if \<not> truthy_str raw then None
      else let seconds = durationSeconds (trim (the raw))
           in if truthy_num seconds then Some seconds else None)"

section \<open>The numeric extractor\<close>

fun Repeat :: "nat \<Rightarrow> regex \<Rightarrow> regex" where
  \<comment> \<open>\<open>r{n}\<close>\<close>
  "Repeat 0 r = Eps"
| "Repeat (Suc n) r = Seq r (Repeat n r)"

definition AtLeast :: "nat \<Rightarrow> regex \<Rightarrow> regex" where
  \<comment> \<open>\<open>r{n,}\<close>\<close>
  "AtLeast n r = Seq (Repeat n r) (Star r)"

definition LF :: char where
  "LF = CHR 0x0A"

definition CR :: char where
  "CR = CHR 0x0D"

definition separatorRe :: regex where
  \<comment> \<open>\<open>/[,^\n]/g\<close>\<close>
  "separatorRe = Chr (\<lambda>c. c = CHR '','' \<or> c = CHR ''^'' \<or> c = LF)"

definition numberRe :: regex where
  \<comment> \<open>\<open>-?\d+(?:\.\d+)?\<close>\<close>
  "numberRe =
     Seq (Opt (Lit ''-''))
       (Seq (Plus (Chr isDigit)) (Opt (Seq (Lit ''.'') (Plus (Chr isDigit)))))"

definition bigIntRe :: regex where
  \<comment> \<open>\<open>/^-?\d{3,}$/\<close>\<close>
  "bigIntRe = Seq Bol (Seq (Opt (Lit ''-'')) (Seq (AtLeast 3 (Chr isDigit)) Eol))"

definition extractNumberFromText :: "string option \<Rightarrow> jsnum option" where
  "extractNumberFromText text =
     (if \<not> truthy_str text then None
      else case re_match_g numberRe (re_replace_g separatorRe '' '' (the text)) of
             None \<Rightarrow> None
           | Some nums \<Rightarrow>
               if nums = [] then None
               else let bigInt = filter (re_test bigIntRe) (map (\<lambda>n. n) nums);
                        chosen = (case bigInt of b # _ \<Rightarrow> b | [] \<Rightarrow> last nums);
                        num = Number_str chosen
                    in if isFinite num then Some num else None)"

section \<open>Reading the report\<close>

record RawModel =
  name :: string
  answerLine :: "string option"
  numericAnswer :: "jsnum option"
  metrics :: "string \<rightharpoonup> string"

record ModelRecord = RawModel +
  totalSeconds :: "jsnum option"
  loadSeconds :: "jsnum option"
  promptCount :: "jsnum option"
  evalCount :: "jsnum option"
  promptDurationSeconds :: "jsnum option"
  evalDurationSeconds :: "jsnum option"
  promptRate :: "jsnum option"
  evalRate :: "jsnum option"
  correct :: bool

record LoopState =
  models :: "RawModel list"
  cur :: "RawModel option"
  afterHeaderLineCount :: nat

definition EXPECTED_ANSWER :: jsnum where
  "EXPECTED_ANSWER = Fin 3600"

definition lineBreakRe :: regex where
  \<comment> \<open>\<open>/\r?\n/\<close>\<close>
  "lineBreakRe = Seq (Opt (Lit [CR])) (Lit [LF])"

definition headerRe :: regex where
  \<comment> \<open>\<open>/^[A-Za-z0-9._-]+:[A-Za-z0-9._-]+/\<close>\<close>
  "headerRe = Seq Bol (Seq (Plus (Chr isHeaderChar)) (Seq (Lit '':'') (Plus (Chr isHeaderChar))))"

definition trailingSpaceRe :: regex where
  \<comment> \<open>\<open>/\s+$/\<close>\<close>
  "trailingSpaceRe = Seq (Plus (Chr isSpace)) Eol"

definition step5Re :: regex where
  \<comment> \<open>\<open>/Step\s*5:/i\<close>\<close>
  "step5Re = Seq (LitI ''Step'') (Seq (Star (Chr isSpace)) (LitI ''5:''))"

definition answerRe :: regex where
  \<comment> \<open>\<open>/answer/i\<close>\<close>
  "answerRe = LitI ''answer''"

definition theTrainsRe :: regex where
  \<comment> \<open>\<open>/The\s+trains/i\<close>\<close>
  "theTrainsRe = Seq (LitI ''The'') (Seq (Plus (Chr isSpace)) (LitI ''trains''))"

definition metricRe :: regex where
  \<comment> \<open>\<open>/^(total duration|load duration|prompt eval count|prompt eval duration|prompt eval rate|eval count|eval duration|eval rate):\s*(.+)$/i\<close>\<close>
  "metricRe =
     Seq Bol
       (Seq (Group 1 (Alts [LitI ''total duration'', LitI ''load duration'',
                            LitI ''prompt eval count'', LitI ''prompt eval duration'',
                            LitI ''prompt eval rate'', LitI ''eval count'',
                            LitI ''eval duration'', LitI ''eval rate'']))
         (Seq (LitI '':'')
           (Seq (Star (Chr isSpace))
             (Seq (Group 2 (Plus (Chr (\<lambda>c. \<not> isLineTerminator c)))) Eol))))"

definition bigNumberRe :: regex where
  \<comment> \<open>\<open>/\b(\d{3,})\b/\<close>\<close>
  "bigNumberRe = Seq WordB (Seq (Group 1 (AtLeast 3 (Chr isDigit))) WordB)"

definition metricWordRe :: regex where
  \<comment> \<open>\<open>/duration|count|rate/i\<close>\<close>
  "metricWordRe = Alts [LitI ''duration'', LitI ''count'', LitI ''rate'']"

definition firstDigitsRe :: regex where
  \<comment> \<open>\<open>/\d+/\<close>\<close>
  "firstDigitsRe = Plus (Chr isDigit)"

definition signedNumberRe :: regex where
  \<comment> \<open>\<open>/(-?\d+(?:\.\d+)?)/\<close>\<close>
  "signedNumberRe = Group 1 numberRe"

definition group2 :: "(mstate \<times> mstate) \<Rightarrow> string" where
  \<comment> \<open>\<open>m[2]\<close> of a match whose pattern always captures group 2\<close>
  "group2 m = (case matchGroup m 2 of None \<Rightarrow> [] | Some g \<Rightarrow> g)"

definition isModelHeader :: "string \<Rightarrow> bool" where
  "isModelHeader line = re_test headerRe (trim line)"

definition isEarlyAnswer :: "string \<Rightarrow> bool" where
  \<comment> \<open>the condition of the inner \<open>if\<close> of the early capture\<close>
  "isEarlyAnswer line =
     (re_test step5Re line \<or> re_test answerRe line \<or> re_test theTrainsRe line)"

definition captureAnswer :: "RawModel \<Rightarrow> string \<Rightarrow> RawModel" where
  \<comment> \<open>\<open>cur.answerLine = raw.trim(); cur.numericAnswer = extractNumberFromText(cur.answerLine)\<close>\<close>
  "captureAnswer c raw =
     (let c1 = c\<lparr>answerLine := Some (trim raw)\<rparr>
      in c1\<lparr>numericAnswer := extractNumberFromText (answerLine c1)\<rparr>)"

definition pushCur :: "LoopState \<Rightarrow> RawModel list" where
  \<comment> \<open>\<open>models\<close> after \<open>if (cur) models.push(cur)\<close>\<close>
  "pushCur st = (case cur st of None \<Rightarrow> models st | Some c \<Rightarrow> models st @ [c])"

definition loopBody :: "LoopState \<Rightarrow> string \<Rightarrow> LoopState" where
  \<comment> \<open>one turn of the \<open>for\<close> loop over the lines; each \<open>continue\<close> is a branch\<close>
  "loopBody st raw =
     (let line = trim raw in
      if line = [] then st
      else if startsWith line ''```'' then st
      else if isModelHeader line then
        \<lparr>models = pushCur st,
         cur = Some \<lparr>name = re_replace trailingSpaceRe [] line, answerLine = None,
                     numericAnswer = None, metrics = Map.empty\<rparr>,
         afterHeaderLineCount = 0\<rparr>
      else case cur st of
        None \<Rightarrow> st
      | Some c \<Rightarrow>
          let n = afterHeaderLineCount st + 1 in
          if \<not> truthy_str (answerLine c) \<and> n \<le> 6 \<and> isEarlyAnswer line
          then st\<lparr>cur := Some (captureAnswer c raw), afterHeaderLineCount := n\<rparr>
          else (case re_match metricRe raw of
            Some m \<Rightarrow>
              let key = toLowerCase (group1 m); val = trim (group2 m)
              in st\<lparr>cur := Some (c\<lparr>metrics := (metrics c)(key \<mapsto> val)\<rparr>),
                    afterHeaderLineCount := n\<rparr>
          | None \<Rightarrow>
              if \<not> truthy_str (answerLine c) \<and> re_test bigNumberRe line
                 \<and> \<not> re_test metricWordRe line
              then st\<lparr>cur := Some (captureAnswer c raw), afterHeaderLineCount := n\<rparr>
              else st\<lparr>afterHeaderLineCount := n\<rparr>))"

definition readModels :: "string list \<Rightarrow> RawModel list" where
  \<comment> \<open>the loop over the lines and the final \<open>if (cur) models.push(cur)\<close>\<close>
  "readModels lines =
     (let st = foldl loopBody \<lparr>models = [], cur = None, afterHeaderLineCount = 0\<rparr> lines
      in pushCur st)"

definition strictEq :: "jsnum \<Rightarrow> jsnum \<Rightarrow> bool" where
  \<comment> \<open>\<open>===\<close> on numbers: NaN equals nothing\<close>
  "strictEq a b =
     (case (a, b) of (Fin x, Fin y) \<Rightarrow> x = y | (PosInf, PosInf) \<Rightarrow> True
      | (NegInf, NegInf) \<Rightarrow> True | _ \<Rightarrow> False)"

definition countOf :: "string option \<Rightarrow> jsnum option" where
  \<comment> \<open>\<open>v ? Number(String(v).match(/\d+/)?.[0]) : null\<close>\<close>
  "countOf v =
     (if truthy_str v
      then Some (Number_undef (case re_match firstDigitsRe (the v) of
                                 None \<Rightarrow> None | Some m \<Rightarrow> matchGroup m 0))
      else None)"

definition rateOf :: "string option \<Rightarrow> jsnum option" where
  \<comment> \<open>\<open>v ? Number(String(v).match(/(-?\d+(?:\.\d+)?)/)?.[1]) : null\<close>\<close>
  "rateOf v =
     (if truthy_str v
      then Some (Number_undef (case re_match signedNumberRe (the v) of
                                 None \<Rightarrow> None | Some m \<Rightarrow> matchGroup m 1))
      else None)"

definition normalize :: "RawModel \<Rightarrow> ModelRecord" where
  \<comment> \<open>the body of the second loop of \<open>loadData\<close>\<close>
  "normalize m =
     (let md = metrics m in
      RawModel.extend m
        (ModelRecord.fields
          (parseDurationToSeconds (md ''total duration''))
          (parseDurationToSeconds (md ''load duration''))
          (countOf (md ''prompt eval count''))
          (countOf (md ''eval count''))
          (parseDurationToSeconds (md ''prompt eval duration''))
          (parseDurationToSeconds (md ''eval duration''))
          (rateOf (md ''prompt eval rate''))
          (rateOf (md ''eval rate''))
          (strictEq (Number_null (numericAnswer m)) EXPECTED_ANSWER)))"

definition parseReport :: "string \<Rightarrow> ModelRecord list" where
  \<comment> \<open>\<open>loadData\<close> from the text of the report on\<close>
  "parseReport txt = map normalize (readModels (re_split lineBreakRe txt))"

datatype error = Error string

record Response =
  ok :: bool
  resText :: string

definition loadData :: "Response \<Rightarrow> error + ModelRecord list" where
  \<comment> \<open>\<open>res\<close> is what \<open>fetch('data.md')\<close> resolved to, \<open>resText\<close> what \<open>res.text()\<close> gives\<close>
  "loadData res =
     (if \<not> ok res then Inl (Error ''Failed to load data.md'')
      else Inr (parseReport (resText res)))"

section \<open>What the matcher finds\<close>

text \<open>
  \<open>run r s s'\<close>: the pattern \<open>r\<close> can take the matcher from state \<open>s\<close> to state \<open>s'\<close>.
  The matcher returns exactly these states (lemma \<open>matchR_run\<close>).
\<close>

inductive run :: "regex \<Rightarrow> mstate \<Rightarrow> mstate \<Rightarrow> bool" where
  run_Eps: "run Eps s s"
| run_Chr: "P c \<Longrightarrow> run (Chr P) (b, c # a, k) (c # b, a, k)"
| run_Seq: "run r1 s s1 \<Longrightarrow> run r2 s1 s2 \<Longrightarrow> run (Seq r1 r2) s s2"
| run_AltL: "run r1 s s' \<Longrightarrow> run (Alt r1 r2) s s'"
| run_AltR: "run r2 s s' \<Longrightarrow> run (Alt r1 r2) s s'"
| run_Star0: "run (Star r) s s"
| run_StarS: "run r s s1 \<Longrightarrow> length (aft s1) < length (aft s) \<Longrightarrow> run (Star r) s1 s2
              \<Longrightarrow> run (Star r) s s2"
| run_Group: "run r s s' \<Longrightarrow> run (Group i r) s (bef s', aft s', (i, consumed s s') # caps s')"
| run_Bol: "bef s = [] \<Longrightarrow> run Bol s s"
| run_Eol: "aft s = [] \<Longrightarrow> run Eol s s"
| run_WordB: "atWordBoundary s \<Longrightarrow> run WordB s s"

text \<open>\<open>spans s m s'\<close>: from \<open>s\<close> to \<open>s'\<close> the matcher has read the text \<open>m\<close> and captured nothing.\<close>

definition spans :: "mstate \<Rightarrow> string \<Rightarrow> mstate \<Rightarrow> bool" where
  "spans s m s' = (aft s = m @ aft s' \<and> bef s' = rev m @ bef s \<and> caps s' = caps s)"

text \<open>The texts that \<open>[0-9]+(?:\.[0-9]+)?\<close> matches.\<close>

definition isUnsignedText :: "string \<Rightarrow> bool" where
  "isUnsignedText m =
     (\<exists>ds fs. ds \<noteq> [] \<and> list_all isDigit ds \<and>
        (m = ds \<or> (fs \<noteq> [] \<and> list_all isDigit fs \<and> m = ds @ CHR ''.'' # fs)))"

section \<open>The numeric extractor in words\<close>

definition numberTokens :: "string \<Rightarrow> string list" where
  \<comment> \<open>the numeric tokens of a text: what \<open>/-?\d+(?:\.\d+)?/g\<close> finds once the separators
      are blanked\<close>
  "numberTokens t = match_g numberRe [] (re_replace_g separatorRe '' '' t)"

definition isSignedText :: "string \<Rightarrow> bool" where
  \<comment> \<open>the texts that \<open>-?\d+(?:\.\d+)?\<close> matches\<close>
  "isSignedText m = (isUnsignedText m \<or> (\<exists>u. m = CHR ''-'' # u \<and> isUnsignedText u))"

definition isBigIntText :: "string \<Rightarrow> bool" where
  \<comment> \<open>three digits or more, after an optional minus sign, and nothing else\<close>
  "isBigIntText n =
     (let ds = (case n of [] \<Rightarrow> [] | c # cs \<Rightarrow> if c = CHR ''-'' then cs else n)
      in 3 \<le> length ds \<and> list_all isDigit ds)"

definition chosenToken :: "string list \<Rightarrow> string" where
  \<comment> \<open>the first token that is an integer of three digits or more, else the last token\<close>
  "chosenToken ts = (case find isBigIntText ts of Some t \<Rightarrow> t | None \<Rightarrow> last ts)"

section \<open>The token counts in words\<close>

definition firstDigits :: "string \<Rightarrow> string" where
  \<comment> \<open>the first run of digits of a text\<close>
  "firstDigits v = takeWhile isDigit (dropWhile (\<lambda>c. \<not> isDigit c) v)"

definition countInWords :: "string option \<Rightarrow> jsnum option" where
  \<comment> \<open>null without a metric string (or with an empty one), NaN when it has no digit,
      else the double nearest to the integer that its first run of digits writes\<close>
  "countInWords x =
     (case x of
        None \<Rightarrow> None
      | Some v \<Rightarrow>
          if v = [] then None
          else if list_ex isDigit v then Some (toDouble (of_int (decNat (firstDigits v))))
          else Some NaN)"

section \<open>The lines of a report\<close>

definition keepLine :: "string \<Rightarrow> bool" where
  \<comment> \<open>a line that the loop does not skip: not blank, and not starting with a fence\<close>
  "keepLine raw = (trim raw \<noteq> [] \<and> \<not> startsWith (trim raw) ''```'')"

definition isHeaderLine :: "string \<Rightarrow> bool" where
  \<comment> \<open>a line that opens a model\<close>
  "isHeaderLine raw = (keepLine raw \<and> isModelHeader (trim raw))"

definition freshModel :: "string \<Rightarrow> RawModel" where
  \<comment> \<open>the record that a header line opens\<close>
  "freshModel n = \<lparr>name = n, answerLine = None, numericAnswer = None, metrics = Map.empty\<rparr>"

section \<open>The grid of the second revision\<close>

text \<open>
  \<open>renderGrid\<close> of the second revision of the script filters the records by name and
  sorts them before it builds one card for each.  The model returns the records in the
  order in which their cards are appended to the grid.  \<open>SORT\<close> is the global object
  \<open>{ by, dir }\<close>; its fields are strings that the page sets.
\<close>

record SortState =
  sort_by :: string
  sort_dir :: string

fun includes_str :: "string \<Rightarrow> string \<Rightarrow> bool" where
  \<comment> \<open>\<open>s.includes(q)\<close>\<close>
  "includes_str [] q = (q = [])"
| "includes_str (c # cs) q = (startsWith (c # cs) q \<or> includes_str cs q)"

definition getVal :: "SortState \<Rightarrow> ModelRecord \<Rightarrow> jsnum option" where
  "getVal SORT m =
     (if sort_by SORT = ''total'' then totalSeconds m
      else if sort_by SORT = ''genDuration'' then evalDurationSeconds m
      else if sort_by SORT = ''promptRate'' then promptRate m
      else if sort_by SORT = ''evalRate'' then evalRate m
      else if sort_by SORT = ''evalCount'' then evalCount m
      else totalSeconds m)"

definition isMissing :: "jsnum option \<Rightarrow> bool" where
  \<comment> \<open>\<open>(v == null || Number.isNaN(v))\<close>\<close>
  "isMissing v = (case v of None \<Rightarrow> True | Some n \<Rightarrow> isNaN n)"

definition compareModels :: "SortState \<Rightarrow> ModelRecord \<Rightarrow> ModelRecord \<Rightarrow> jsnum" where
  \<comment> \<open>the comparison function given to \<open>filtered.sort\<close>; the subtraction \<open>va - vb\<close>
      converts its operands to numbers\<close>
  "compareModels SORT a b =
     (let va = getVal SORT a; vb = getVal SORT b;
          na = isMissing va; nb = isMissing vb
      in if na \<and> nb then Fin 0
         else if na then Fin 1
         else if nb then Fin (- 1)
         else let diff = num_sub (Number_null va) (Number_null vb)
              in if sort_dir SORT = ''asc'' then diff else num_neg diff)"

fun numLess :: "jsnum \<Rightarrow> jsnum \<Rightarrow> bool" where
  \<comment> \<open>less than, on numbers: NaN is not less than a number, and no number is less than NaN\<close>
  "numLess (Fin p) (Fin q) = (p < q)"
| "numLess NegInf (Fin q) = True"
| "numLess NegInf PosInf = True"
| "numLess (Fin p) PosInf = True"
| "numLess _ _ = False"

definition positive :: "jsnum \<Rightarrow> bool" where
  \<comment> \<open>a result of the comparison function that puts the first argument after the second;
      NaN counts as 0\<close>
  "positive v = (case v of Fin q \<Rightarrow> 0 < q | PosInf \<Rightarrow> True | _ \<Rightarrow> False)"

fun insertBy :: "('a \<Rightarrow> 'a \<Rightarrow> jsnum) \<Rightarrow> 'a \<Rightarrow> 'a list \<Rightarrow> 'a list" where
  "insertBy cmp x [] = [x]"
| "insertBy cmp x (y # ys) = (if positive (cmp x y) then y # insertBy cmp x ys else x # y # ys)"

definition sortBy :: "('a \<Rightarrow> 'a \<Rightarrow> jsnum) \<Rightarrow> 'a list \<Rightarrow> 'a list" where
  \<comment> \<open>\<open>Array.prototype.sort\<close> with a comparison function: a stable sort, here by
      insertion from the right\<close>
  "sortBy cmp xs = foldr (insertBy cmp) xs []"

definition renderGrid :: "SortState \<Rightarrow> ModelRecord list \<Rightarrow> string \<Rightarrow> ModelRecord list" where
  "renderGrid SORT ms flt =
     (let q = toLowerCase (trim flt);
          filtered = (if q \<noteq> [] then filter (\<lambda>m. includes_str (toLowerCase (name m)) q) ms
                      else ms)
      in sortBy (compareModels SORT) filtered)"


section \<open>The reader of the second revision\<close>

text \<open>
  The second revision of the script has its own \<open>parseDurationToSeconds\<close>,
  \<open>extractNumberFromText\<close> and \<open>loadData\<close>.  They are embedded here under the names of
  the first revision with the suffix \<open>_2\<close>.  The regular expression literals and the
  shape of the records are the same in both files, and the two embeddings share them.
\<close>

definition EXPECTED_ANSWER_2 :: jsnum where
  "EXPECTED_ANSWER_2 = Fin 3600"

definition durationSeconds_2 :: "string \<Rightarrow> jsnum" where
  \<comment> \<open>the variable \<open>seconds\<close> of \<open>parseDurationToSeconds_2\<close> at its \<open>return\<close>\<close>
  "durationSeconds_2 s =
     (let minMatch = re_match minRe s;
          secMatch = re_match secRe s;
          msMatch = re_match msRe s;
          seconds = Fin 0;
          seconds = (case minMatch of None \<Rightarrow> seconds
                     | Some m \<Rightarrow> num_add seconds (num_mul (parseFloat (group1 m)) (Fin 60)));
          seconds = (case secMatch of None \<Rightarrow> seconds
                     | Some m \<Rightarrow> num_add seconds (parseFloat (group1 m)));
          seconds = (case (secMatch, msMatch) of
                       (None, Some m) \<Rightarrow>
                          num_add seconds (num_div (parseFloat (group1 m)) (Fin 1000))
                     | _ \<Rightarrow> seconds)
      in seconds)"

definition parseDurationToSeconds_2 :: "string option \<Rightarrow> jsnum option" where
  "parseDurationToSeconds_2 raw =
     (if \<not> truthy_str raw then None
      else let seconds = durationSeconds_2 (trim (the raw))
           in if truthy_num seconds then Some seconds else None)"

definition extractNumberFromText_2 :: "string option \<Rightarrow> jsnum option" where
  "extractNumberFromText_2 text =
     (if \<not> truthy_str text then None
      else case re_match_g numberRe (re_replace_g separatorRe '' '' (the text)) of
             None \<Rightarrow> None
           | Some nums \<Rightarrow>
               if nums = [] then None
               else let bigInt = filter (re_test bigIntRe) (map (\<lambda>n. n) nums);
                        chosen = (case bigInt of b # _ \<Rightarrow> b | [] \<Rightarrow> last nums);
                        num = Number_str chosen
                    in if isFinite num then Some num else None)"

definition isModelHeader_2 :: "string \<Rightarrow> bool" where
  "isModelHeader_2 line = re_test headerRe (trim line)"

definition isEarlyAnswer_2 :: "string \<Rightarrow> bool" where
  \<comment> \<open>the condition of the inner \<open>if\<close> of the early capture\<close>
  "isEarlyAnswer_2 line =
     (re_test step5Re line \<or> re_test answerRe line \<or> re_test theTrainsRe line)"

definition captureAnswer_2 :: "RawModel \<Rightarrow> string \<Rightarrow> RawModel" where
  \<comment> \<open>\<open>cur.answerLine = raw.trim(); cur.numericAnswer = extractNumberFromText_2(cur.answerLine)\<close>\<close>
  "captureAnswer_2 c raw =
     (let c1 = c\<lparr>answerLine := Some (trim raw)\<rparr>
      in c1\<lparr>numericAnswer := extractNumberFromText_2 (answerLine c1)\<rparr>)"

definition pushCur_2 :: "LoopState \<Rightarrow> RawModel list" where
  \<comment> \<open>\<open>models\<close> after \<open>if (cur) models.push(cur)\<close>\<close>
  "pushCur_2 st = (case cur st of None \<Rightarrow> models st | Some c \<Rightarrow> models st @ [c])"

definition loopBody_2 :: "LoopState \<Rightarrow> string \<Rightarrow> LoopState" where
  \<comment> \<open>one turn of the \<open>for\<close> loop over the lines; each \<open>continue\<close> is a branch\<close>
  "loopBody_2 st raw =
     (let line = trim raw in
      if line = [] then st
      else if startsWith line ''```'' then st
      else if isModelHeader_2 line then
        \<lparr>models = pushCur_2 st,
         cur = Some \<lparr>name = re_replace trailingSpaceRe [] line, answerLine = None,
                     numericAnswer = None, metrics = Map.empty\<rparr>,
         afterHeaderLineCount = 0\<rparr>
      else case cur st of
        None \<Rightarrow> st
      | Some c \<Rightarrow>
          let n = afterHeaderLineCount st + 1 in
          if \<not> truthy_str (answerLine c) \<and> n \<le> 6 \<and> isEarlyAnswer_2 line
          then st\<lparr>cur := Some (captureAnswer_2 c raw), afterHeaderLineCount := n\<rparr>
          else (case re_match metricRe raw of
            Some m \<Rightarrow>
              let key = toLowerCase (group1 m); val = trim (group2 m)
              in st\<lparr>cur := Some (c\<lparr>metrics := (metrics c)(key \<mapsto> val)\<rparr>),
                    afterHeaderLineCount := n\<rparr>
          | None \<Rightarrow>
              if \<not> truthy_str (answerLine c) \<and> re_test bigNumberRe line
                 \<and> \<not> re_test metricWordRe line
              then st\<lparr>cur := Some (captureAnswer_2 c raw), afterHeaderLineCount := n\<rparr>
              else st\<lparr>afterHeaderLineCount := n\<rparr>))"

definition readModels_2 :: "string list \<Rightarrow> RawModel list" where
  \<comment> \<open>the loop over the lines and the final \<open>if (cur) models.push(cur)\<close>\<close>
  "readModels_2 lines =
     (let st = foldl loopBody_2 \<lparr>models = [], cur = None, afterHeaderLineCount = 0\<rparr> lines
      in pushCur_2 st)"

definition countOf_2 :: "string option \<Rightarrow> jsnum option" where
  \<comment> \<open>\<open>v ? Number(String(v).match(/\d+/)?.[0]) : null\<close>\<close>
  "countOf_2 v =
     (if truthy_str v
      then Some (Number_undef (case re_match firstDigitsRe (the v) of
                                 None \<Rightarrow> None | Some m \<Rightarrow> matchGroup m 0))
      else None)"

definition rateOf_2 :: "string option \<Rightarrow> jsnum option" where
  \<comment> \<open>\<open>v ? Number(String(v).match(/(-?\d+(?:\.\d+)?)/)?.[1]) : null\<close>\<close>
  "rateOf_2 v =
     (if truthy_str v
      then Some (Number_undef (case re_match signedNumberRe (the v) of
                                 None \<Rightarrow> None | Some m \<Rightarrow> matchGroup m 1))
      else None)"

definition normalize_2 :: "RawModel \<Rightarrow> ModelRecord" where
  \<comment> \<open>the body of the second loop of \<open>loadData_2\<close>\<close>
  "normalize_2 m =
     (let md = metrics m in
      RawModel.extend m
        (ModelRecord.fields
          (parseDurationToSeconds_2 (md ''total duration''))
          (parseDurationToSeconds_2 (md ''load duration''))
          (countOf_2 (md ''prompt eval count''))
          (countOf_2 (md ''eval count''))
          (parseDurationToSeconds_2 (md ''prompt eval duration''))
          (parseDurationToSeconds_2 (md ''eval duration''))
          (rateOf_2 (md ''prompt eval rate''))
          (rateOf_2 (md ''eval rate''))
          (strictEq (Number_null (numericAnswer m)) EXPECTED_ANSWER_2)))"

definition parseReport_2 :: "string \<Rightarrow> ModelRecord list" where
  \<comment> \<open>\<open>loadData_2\<close> from the text of the report on\<close>
  "parseReport_2 txt = map normalize_2 (readModels_2 (re_split lineBreakRe txt))"

definition loadData_2 :: "Response \<Rightarrow> error + ModelRecord list" where
  \<comment> \<open>\<open>res\<close> is what \<open>fetch('data.md')\<close> resolved to, \<open>resText\<close> what \<open>res.text()\<close> gives\<close>
  "loadData_2 res =
     (if \<not> ok res then Inl (Error ''Failed to load data.md'')
      else Inr (parseReport_2 (resText res)))"

section \<open>The matcher returns what the pattern allows\<close>

inductive_simps run_Eps_iff: "run Eps s s'"
inductive_simps run_Chr_iff: "run (Chr P) s s'"
inductive_simps run_Seq_iff: "run (Seq r1 r2) s s'"
inductive_simps run_Alt_iff: "run (Alt r1 r2) s s'"
inductive_simps run_Star_iff: "run (Star r) s s'"
inductive_simps run_Group_iff: "run (Group i r) s s'"
inductive_simps run_Bol_iff: "run Bol s s'"
inductive_simps run_Eol_iff: "run Eol s s'"
inductive_simps run_WordB_iff: "run WordB s s'"

lemma iter_run:
  assumes f: "\<And>s s'. s' \<in> set (f s) \<longleftrightarrow> run r s s'"
  shows "length (aft s) \<le> n \<Longrightarrow> s' \<in> set (iter n f s) \<longleftrightarrow> run (Star r) s s'"
proof (induction n arbitrary: s)
  case 0
  then show ?case by (auto simp: run_Star_iff[of r s s'])
next
  case (Suc n)
  have "s' \<in> set (iter (Suc n) f s) \<longleftrightarrow>
        s' = s \<or> (\<exists>s1. run r s s1 \<and> length (aft s1) < length (aft s) \<and> s' \<in> set (iter n f s1))"
    by (auto simp: f)
  also have "\<dots> \<longleftrightarrow> s' = s \<or> (\<exists>s1. run r s s1 \<and> length (aft s1) < length (aft s) \<and> run (Star r) s1 s')"
    using Suc by (metis (no_types, lifting) less_Suc_eq_le order_less_le_trans)
  also have "\<dots> \<longleftrightarrow> run (Star r) s s'"
    by (subst (2) run_Star_iff) auto
  finally show ?case .
qed

lemma matchR_run: "s' \<in> set (matchR r s) \<longleftrightarrow> run r s s'"
proof (induction r arbitrary: s s')
  case Eps
  show ?case by (auto simp: run_Eps_iff)
next
  case (Chr P)
  show ?case by (cases s) (auto simp: run_Chr_iff bef_def aft_def caps_def split: list.splits)
next
  case (Seq r1 r2)
  have "s' \<in> set (matchR (Seq r1 r2) s) \<longleftrightarrow> (\<exists>s1. run r1 s s1 \<and> run r2 s1 s')"
    by (simp add: Seq.IH Bex_def)
  then show ?case by (auto simp: run_Seq_iff)
next
  case (Alt r1 r2)
  then show ?case by (auto simp: run_Alt_iff)
next
  case (Star r)
  then show ?case using iter_run[of "matchR r" r s "length (aft s)" s'] by simp
next
  case (Group i r)
  have "s' \<in> set (matchR (Group i r) s) \<longleftrightarrow>
        (\<exists>s1. run r s s1 \<and> s' = (bef s1, aft s1, (i, consumed s s1) # caps s1))"
    by (simp add: Group.IH image_iff Bex_def)
  then show ?case by (auto simp: run_Group_iff)
next
  case Bol
  show ?case by (auto simp: run_Bol_iff)
next
  case Eol
  show ?case by (auto simp: run_Eol_iff)
next
  case WordB
  show ?case by (auto simp: run_WordB_iff)
qed

text \<open>The repetition never runs out of turns: more turns than characters change nothing.\<close>

lemma iter_fuel_step: "length (aft s) \<le> n \<Longrightarrow> iter (Suc n) f s = iter n f s"
proof (induction n arbitrary: s)
  case 0
  then show ?case by simp
next
  case (Suc n)
  have h: "map (iter (Suc n) f) (filter (\<lambda>s'. length (aft s') < length (aft s)) (f s))
        = map (iter n f) (filter (\<lambda>s'. length (aft s') < length (aft s)) (f s))"
    using Suc.prems by (intro map_cong refl Suc.IH) auto
  show ?case by (simp only: iter.simps(2) h)
qed

lemma iter_fuel: "length (aft s) \<le> n \<Longrightarrow> iter n f s = iter (length (aft s)) f s"
proof (induction n)
  case 0
  then show ?case by simp
next
  case (Suc n)
  show ?case
  proof (cases "length (aft s) \<le> n")
    case True
    with Suc.IH iter_fuel_step[OF True, of f] show ?thesis by simp
  next
    case False
    with Suc.prems have "length (aft s) = Suc n" by simp
    then show ?thesis by simp
  qed
qed

subsection \<open>Character classes, their repetitions, and literals\<close>

lemma spans_Nil: "spans s [] s' \<longleftrightarrow> s' = s"
  by (cases s; cases s') (auto simp: spans_def bef_def aft_def caps_def)

lemma spans_trans: "spans s m s1 \<Longrightarrow> spans s1 n s2 \<Longrightarrow> spans s (m @ n) s2"
  by (simp add: spans_def)

lemma spans_consumed: "spans s m s' \<Longrightarrow> consumed s s' = m"
  by (simp add: spans_def consumed_def)

lemma spans_length: "spans s m s' \<Longrightarrow> length (aft s) = length m + length (aft s')"
  by (simp add: spans_def)

lemma spans_state: "spans s m s' \<longleftrightarrow> aft s = m @ aft s' \<and> s' = (rev m @ bef s, drop (length m) (aft s), caps s)"
  by (cases s; cases s') (auto simp: spans_def bef_def aft_def caps_def)

lemma run_Chr_spans: "run (Chr P) s s' \<longleftrightarrow> (\<exists>c. P c \<and> spans s [c] s')"
  by (cases s; cases s') (auto simp: run_Chr_iff spans_def bef_def aft_def caps_def)

lemma run_Star_Chr_spans: "run (Star (Chr P)) s s' \<longleftrightarrow> (\<exists>m. list_all P m \<and> spans s m s')"
proof
  assume "run (Star (Chr P)) s s'"
  then show "\<exists>m. list_all P m \<and> spans s m s'"
  proof (induction "Star (Chr P)" s s' rule: run.induct)
    case (run_Star0 s)
    have "list_all P [] \<and> spans s [] s" by (simp add: spans_Nil)
    then show ?case by blast
  next
    case (run_StarS s s1 s2)
    from run_StarS(1) obtain c where c: "P c" "spans s [c] s1" by (auto simp: run_Chr_spans)
    from run_StarS(4) obtain m where m: "list_all P m" "spans s1 m s2" by blast
    have "list_all P (c # m) \<and> spans s (c # m) s2"
      using c(1) m(1) spans_trans[OF c(2) m(2)] by simp
    then show ?case by blast
  qed
next
  assume "\<exists>m. list_all P m \<and> spans s m s'"
  then obtain m where "list_all P m" "spans s m s'" by blast
  then show "run (Star (Chr P)) s s'"
  proof (induction m arbitrary: s)
    case Nil
    then show ?case by (simp add: spans_Nil run_Star0)
  next
    case (Cons c m)
    let ?s1 = "(c # bef s, m @ aft s', caps s)"
    have a: "aft s = c # m @ aft s'" using Cons.prems by (simp add: spans_def)
    have 1: "run (Chr P) s ?s1" using Cons.prems a
      by (cases s) (auto simp: run_Chr_iff bef_def aft_def caps_def)
    have 2: "spans ?s1 m s'" using Cons.prems by (simp add: spans_def bef_def aft_def caps_def)
    have 3: "length (aft ?s1) < length (aft s)" using a by (simp add: aft_def)
    from Cons.IH[OF _ 2] Cons.prems have "run (Star (Chr P)) ?s1 s'" by simp
    with 1 3 show ?case by (rule run_StarS)
  qed
qed

lemma run_Plus_Chr_spans:
  "run (Plus (Chr P)) s s' \<longleftrightarrow> (\<exists>m. m \<noteq> [] \<and> list_all P m \<and> spans s m s')"
proof -
  have "run (Plus (Chr P)) s s' \<longleftrightarrow> (\<exists>s1. run (Chr P) s s1 \<and> run (Star (Chr P)) s1 s')"
    by (auto simp: Plus_def run_Seq_iff)
  also have "\<dots> \<longleftrightarrow> (\<exists>s1 c m. P c \<and> spans s [c] s1 \<and> list_all P m \<and> spans s1 m s')"
    by (simp only: run_Chr_spans run_Star_Chr_spans) blast
  also have "\<dots> \<longleftrightarrow> (\<exists>m. m \<noteq> [] \<and> list_all P m \<and> spans s m s')"
  proof
    assume "\<exists>s1 c m. P c \<and> spans s [c] s1 \<and> list_all P m \<and> spans s1 m s'"
    then obtain s1 c m where h: "P c" "spans s [c] s1" "list_all P m" "spans s1 m s'" by blast
    then have "c # m \<noteq> [] \<and> list_all P (c # m) \<and> spans s (c # m) s'"
      using spans_trans[OF h(2) h(4)] by simp
    then show "\<exists>m. m \<noteq> [] \<and> list_all P m \<and> spans s m s'" by blast
  next
    assume "\<exists>m. m \<noteq> [] \<and> list_all P m \<and> spans s m s'"
    then obtain m0 where m0: "m0 \<noteq> []" "list_all P m0" "spans s m0 s'" by blast
    then obtain c m where "m0 = c # m" by (cases m0) auto
    with m0 have h: "P c" "list_all P m" "spans s (c # m) s'" by auto
    let ?s1 = "(c # bef s, m @ aft s', caps s)"
    have "spans s [c] ?s1" "spans ?s1 m s'" using h(3) by (auto simp: spans_def bef_def aft_def caps_def)
    with h show "\<exists>s1 c m. P c \<and> spans s [c] s1 \<and> list_all P m \<and> spans s1 m s'" by blast
  qed
  finally show ?thesis .
qed

lemma run_Lit_spans: "run (Lit l) s s' \<longleftrightarrow> spans s l s'"
proof (induction l arbitrary: s)
  case Nil
  show ?case by (auto simp: Lit_def run_Eps_iff spans_Nil)
next
  case (Cons c l)
  have "run (Lit (c # l)) s s' \<longleftrightarrow> (\<exists>s1. run (Chr (\<lambda>x. x = c)) s s1 \<and> run (Lit l) s1 s')"
    by (auto simp: Lit_def run_Seq_iff)
  also have "\<dots> \<longleftrightarrow> (\<exists>s1. spans s [c] s1 \<and> spans s1 l s')"
    by (simp add: Cons run_Chr_spans del: split_paired_Ex)
  also have "\<dots> \<longleftrightarrow> spans s (c # l) s'"
  proof
    assume "\<exists>s1. spans s [c] s1 \<and> spans s1 l s'"
    then obtain s1 where "spans s [c] s1" "spans s1 l s'" by blast
    from spans_trans[OF this] show "spans s (c # l) s'" by simp
  next
    assume h: "spans s (c # l) s'"
    let ?s1 = "(c # bef s, l @ aft s', caps s)"
    have "spans s [c] ?s1" "spans ?s1 l s'" using h by (auto simp: spans_def bef_def aft_def caps_def)
    then show "\<exists>s1. spans s [c] s1 \<and> spans s1 l s'" by blast
  qed
  finally show ?case .
qed

lemma run_Opt: "run (Opt r) s s' \<longleftrightarrow> run r s s' \<or> s' = s"
  by (auto simp: Opt_def run_Alt_iff run_Eps_iff)

subsection \<open>Searching, and the numbers the duration patterns capture\<close>

lemma search_Some:
  "search r b a = Some (st, e) \<Longrightarrow>
     run r st e \<and> (\<exists>u. a = u @ aft st \<and> st = (rev u @ b, aft st, []))"
proof (induction a arbitrary: b)
  case Nil
  then show ?case
    by (auto simp: aft_def matchR_run[symmetric] split: list.splits)
next
  case (Cons c cs)
  show ?case
  proof (cases "matchR r (b, c # cs, [])")
    case Nil
    with Cons.prems have "search r (c # b) cs = Some (st, e)" by simp
    from Cons.IH[OF this] obtain u where "run r st e" "cs = u @ aft st" "st = (rev u @ c # b, aft st, [])"
      by blast
    then have "run r st e \<and> c # cs = (c # u) @ aft st \<and> st = (rev (c # u) @ b, aft st, [])"
      by simp
    then show ?thesis by blast
  next
    case (Cons e' es)
    with Cons.prems have "st = (b, c # cs, [])" "e = e'" by auto
    moreover have "e' \<in> set (matchR r (b, c # cs, []))" using Cons by simp
    ultimately have "run r st e \<and> c # cs = [] @ aft st \<and> st = (rev [] @ b, aft st, [])"
      by (simp add: matchR_run aft_def)
    then show ?thesis by blast
  qed
qed

lemma search_None:
  "search r b a = None \<longleftrightarrow> (\<forall>u v e. a = u @ v \<longrightarrow> \<not> run r (rev u @ b, v, []) e)"
proof (induction a arbitrary: b)
  case Nil
  have "matchR r (b, [], []) = [] \<longleftrightarrow> (\<forall>e. \<not> run r (b, [], []) e)"
    by (metis matchR_run list.set_intros(1) empty_iff list.set(1) neq_Nil_conv)
  then show ?case by (auto split: list.splits)
next
  case (Cons c cs)
  have m: "matchR r (b, c # cs, []) = [] \<longleftrightarrow> (\<forall>e. \<not> run r (b, c # cs, []) e)"
    by (metis matchR_run list.set_intros(1) empty_iff list.set(1) neq_Nil_conv)
  have "search r b (c # cs) = None \<longleftrightarrow>
        matchR r (b, c # cs, []) = [] \<and> search r (c # b) cs = None"
    by (auto split: list.splits)
  also have "\<dots> \<longleftrightarrow> (\<forall>e. \<not> run r (b, c # cs, []) e)
                 \<and> (\<forall>u v e. cs = u @ v \<longrightarrow> \<not> run r (rev u @ c # b, v, []) e)"
    by (simp only: m Cons.IH)
  also have "\<dots> \<longleftrightarrow> (\<forall>u v e. c # cs = u @ v \<longrightarrow> \<not> run r (rev u @ b, v, []) e)"
  proof (intro iffI allI impI)
    fix u v e
    assume h: "(\<forall>e. \<not> run r (b, c # cs, []) e)
                 \<and> (\<forall>u v e. cs = u @ v \<longrightarrow> \<not> run r (rev u @ c # b, v, []) e)"
      and uv: "c # cs = u @ v"
    show "\<not> run r (rev u @ b, v, []) e"
    proof (cases u)
      case Nil
      with h uv show ?thesis by (simp del: split_paired_All)
    next
      case (Cons c' u')
      with uv have "c' = c" "cs = u' @ v" by auto
      with h Cons show ?thesis by (simp del: split_paired_All)
    qed
  next
    assume h: "\<forall>u v e. c # cs = u @ v \<longrightarrow> \<not> run r (rev u @ b, v, []) e"
    have 1: "\<forall>e. \<not> run r (b, c # cs, []) e"
      using h[rule_format, of "[]" "c # cs"] by (simp del: split_paired_All)
    have 2: "\<forall>u v e. cs = u @ v \<longrightarrow> \<not> run r (rev u @ c # b, v, []) e"
      using h[rule_format, of "c # u" for u] by (simp del: split_paired_All)
    from 1 2 show "(\<forall>e. \<not> run r (b, c # cs, []) e)
                 \<and> (\<forall>u v e. cs = u @ v \<longrightarrow> \<not> run r (rev u @ c # b, v, []) e)" by blast
  qed
  finally show ?case .
qed

lemma dot_not_digit: "\<not> isDigit (CHR ''.'')"
  by (simp add: isDigit_def code_def)

lemma takeWhile_all: "list_all P ds \<Longrightarrow> takeWhile P (ds @ c # r) = (if P c then ds @ takeWhile P (c # r) else ds)"
  by (induction ds) auto

lemma dropWhile_all: "list_all P ds \<Longrightarrow> dropWhile P (ds @ r) = dropWhile P r"
  by (induction ds) auto

lemma takeWhile_all': "list_all P ds \<Longrightarrow> takeWhile P ds = ds"
  by (induction ds) auto

lemma dropWhile_all': "list_all P ds \<Longrightarrow> dropWhile P ds = []"
  by (induction ds) auto

lemma decNat_nonneg_aux: "0 \<le> a \<Longrightarrow> list_all isDigit ds \<Longrightarrow> 0 \<le> foldl (\<lambda>a c. 10 * a + digitVal c) a ds"
  by (induction ds arbitrary: a) (auto simp: isDigit_def digitVal_def)

lemma decNat_nonneg: "list_all isDigit ds \<Longrightarrow> 0 \<le> decNat ds"
  by (simp add: decNat_def decNat_nonneg_aux)

lemma unsignedDecimal_text:
  assumes "isUnsignedText m"
  shows "\<exists>q. unsignedDecimal m = Some q \<and> 0 \<le> q"
proof -
  from assms obtain ds fs where ds: "ds \<noteq> []" "list_all isDigit ds"
    and m: "m = ds \<or> (fs \<noteq> [] \<and> list_all isDigit fs \<and> m = ds @ CHR ''.'' # fs)"
    by (auto simp: isUnsignedText_def)
  from m show ?thesis
  proof
    assume "m = ds"
    then have "unsignedDecimal m = Some (of_int (decNat ds))"
      using ds(1) by (simp add: unsignedDecimal_def takeWhile_all'[OF ds(2)] dropWhile_all'[OF ds(2)])
    then show ?thesis using decNat_nonneg[OF ds(2)] by simp
  next
    assume h: "fs \<noteq> [] \<and> list_all isDigit fs \<and> m = ds @ CHR ''.'' # fs"
    then have "unsignedDecimal m = Some (of_int (decNat ds) + of_int (decNat fs) / 10 ^ length fs)"
      using ds(1) by (simp add: unsignedDecimal_def takeWhile_all[OF ds(2)] dropWhile_all[OF ds(2)] dot_not_digit)
    then show ?thesis using decNat_nonneg[OF ds(2)] decNat_nonneg[of fs] h by simp
  qed
qed

lemma run_unsignedNumberRe:
  assumes "run unsignedNumberRe s s'"
  shows "\<exists>m. isUnsignedText m \<and> spans s m s'"
proof -
  from assms obtain s1 where 1: "run (Plus (Chr isDigit)) s s1"
    and 2: "run (Opt (Seq (Lit ''.'') (Plus (Chr isDigit)))) s1 s'"
    unfolding unsignedNumberRe_def by (subst (asm) run_Seq_iff) blast
  from 1 obtain ds where ds: "ds \<noteq> []" "list_all isDigit ds" "spans s ds s1"
    by (auto simp: run_Plus_Chr_spans)
  from 2 consider "s' = s1" | s2 where "run (Lit ''.'') s1 s2" "run (Plus (Chr isDigit)) s2 s'"
    by (subst (asm) run_Opt, subst (asm) run_Seq_iff) blast
  then show ?thesis
  proof cases
    case 1
    with ds have "isUnsignedText ds \<and> spans s ds s'" by (auto simp: isUnsignedText_def)
    then show ?thesis by blast
  next
    case 2
    from 2(1) have d: "spans s1 [CHR ''.''] s2" by (simp add: run_Lit_spans)
    from 2(2) obtain fs where fs: "fs \<noteq> []" "list_all isDigit fs" "spans s2 fs s'"
      by (auto simp: run_Plus_Chr_spans)
    have "spans s (ds @ [CHR ''.''] @ fs) s'"
      using spans_trans[OF ds(3) spans_trans[OF d fs(3)]] .
    with ds fs have "isUnsignedText (ds @ CHR ''.'' # fs) \<and> spans s (ds @ CHR ''.'' # fs) s'"
      by (auto simp: isUnsignedText_def)
    then show ?thesis by blast
  qed
qed

lemma group1_unit:
  assumes "re_match (Seq (Group 1 unsignedNumberRe) (Lit l)) s = Some m"
  shows "\<exists>q. parseFloat (group1 m) = Fin q \<and> 0 \<le> q"
proof -
  obtain st e where m: "m = (st, e)" by (cases m)
  with assms have "run (Seq (Group 1 unsignedNumberRe) (Lit l)) st e"
    using search_Some[of _ "[]" s st e] by (simp add: re_match_def)
  then obtain s1 where 1: "run (Group 1 unsignedNumberRe) st s1" and 2: "run (Lit l) s1 e"
    by (subst (asm) run_Seq_iff) blast
  from 1 obtain s0 where s0: "run unsignedNumberRe st s0"
    and s1: "s1 = (bef s0, aft s0, (1, consumed st s0) # caps s0)"
    by (subst (asm) run_Group_iff) blast
  from run_unsignedNumberRe[OF s0] obtain t where t: "isUnsignedText t" "spans st t s0" by blast
  have "caps e = caps s1" using 2 by (simp add: run_Lit_spans spans_def)
  then have "group1 m = t"
    using s1 t(2) by (simp add: m group1_def matchGroup_def caps_def spans_consumed)
  with unsignedDecimal_text[OF t(1)] show ?thesis by (auto simp: parseFloat_def)
qed


lemma add_step_finite:
  assumes "\<exists>q. x = Fin q \<and> 0 \<le> q"
    and "\<And>m. om = Some m \<Longrightarrow> \<exists>q. f m = Fin q \<and> 0 \<le> q"
  shows "\<exists>q. (case om of None \<Rightarrow> x | Some m \<Rightarrow> num_add x (f m)) = Fin q \<and> 0 \<le> q"
proof (cases om)
  case None
  with assms(1) show ?thesis by simp
next
  case (Some m)
  from assms(1) obtain q where q: "x = Fin q" "0 \<le> q" by blast
  from assms(2)[OF Some] obtain p where p: "f m = Fin p" "0 \<le> p" by blast
  have "num_add x (f m) = Fin (q + p) \<and> 0 \<le> q + p" using q p by simp
  with Some show ?thesis by simp
qed

lemma durationSeconds_finite: "\<exists>q. durationSeconds s = Fin q \<and> 0 \<le> q"
proof -
  have a: "\<exists>q. num_mul (parseFloat (group1 m)) (Fin 60) = Fin q \<and> 0 \<le> q"
    if "re_match minRe s = Some m" for m
  proof -
    from group1_unit[OF that[unfolded minRe_def]] obtain q where "parseFloat (group1 m) = Fin q" "0 \<le> q"
      by blast
    then have "num_mul (parseFloat (group1 m)) (Fin 60) = Fin (q * 60) \<and> 0 \<le> q * 60" by simp
    then show ?thesis by blast
  qed
  have b: "\<exists>q. parseFloat (group1 m) = Fin q \<and> 0 \<le> q" if "re_match secRe s = Some m" for m
    using group1_unit[OF that[unfolded secRe_def]] .
  have c: "\<exists>q. num_div (parseFloat (group1 m)) (Fin 1000) = Fin q \<and> 0 \<le> q"
    if "re_match msRe s = Some m" for m
  proof -
    from group1_unit[OF that[unfolded msRe_def]] obtain q where "parseFloat (group1 m) = Fin q" "0 \<le> q"
      by blast
    then have "num_div (parseFloat (group1 m)) (Fin 1000) = Fin (q / 1000) \<and> 0 \<le> q / 1000" by simp
    then show ?thesis by blast
  qed
  define x1 where "x1 = (case re_match minRe s of None \<Rightarrow> Fin 0
     | Some m \<Rightarrow> num_add (Fin 0) (num_mul (parseFloat (group1 m)) (Fin 60)))"
  define x2 where "x2 = (case re_match secRe s of None \<Rightarrow> x1
     | Some m \<Rightarrow> num_add x1 (parseFloat (group1 m)))"
  define x3 where "x3 = (case (re_match secRe s, re_match msRe s) of
       (None, Some m) \<Rightarrow> num_add x2 (num_div (parseFloat (group1 m)) (Fin 1000))
     | _ \<Rightarrow> x2)"
  have 1: "\<exists>q. x1 = Fin q \<and> 0 \<le> q"
    unfolding x1_def by (rule add_step_finite) (use a in auto)
  have 2: "\<exists>q. x2 = Fin q \<and> 0 \<le> q"
    unfolding x2_def by (rule add_step_finite[OF 1]) (use b in auto)
  have 3: "\<exists>q. (case re_match msRe s of None \<Rightarrow> x2
            | Some m \<Rightarrow> num_add x2 (num_div (parseFloat (group1 m)) (Fin 1000))) = Fin q \<and> 0 \<le> q"
    by (rule add_step_finite[OF 2]) (use c in auto)
  have 4: "\<exists>q. x3 = Fin q \<and> 0 \<le> q"
  proof (cases "re_match secRe s")
    case None
    then show ?thesis using 3 by (simp add: x3_def split: option.splits)
  next
    case (Some m)
    then show ?thesis using 2 by (simp add: x3_def)
  qed
  have "durationSeconds s = x3"
    unfolding durationSeconds_def Let_def x1_def x2_def x3_def ..
  with 4 show ?thesis by simp
qed

section \<open>The duration parser on the documented formats\<close>

lemma parseDuration_min_sec:
  "parseDurationToSeconds (Some ''10m16.674888625s'') = Some (Fin (616674888625 / 1000000000))"
  by code_simp

lemma parseDuration_ms:
  "parseDurationToSeconds (Some ''79.06375ms'') = Some (Fin (474390406375 / 100000000))"
  by code_simp

lemma minRe_matches_ms:
  "map_option group1 (re_match minRe ''79.06375ms'') = Some ''79.06375''"
  by code_simp

text \<open>
  C1.  \<open>parseDurationToSeconds("10m16.674888625s")\<close> is 616.674888625.  On the
  pure-milliseconds string \<open>"79.06375ms"\<close> the minutes pattern \<open>/([0-9]+(?:\.[0-9]+)?)m/\<close>
  matches too, on the \<open>m\<close> of \<open>ms\<close>, and captures 79.06375: the result is
  79.06375 * 60 + 79.06375 / 1000 = 4743.90406375, not 0.07906375.
\<close>

theorem parseDuration_vectors:
  "parseDurationToSeconds (Some ''10m16.674888625s'') = Some (Fin (616674888625 / 1000000000))
   \<and> map_option group1 (re_match minRe ''79.06375ms'') = Some ''79.06375''
   \<and> parseDurationToSeconds (Some ''79.06375ms'') = Some (Fin (474390406375 / 100000000))
   \<and> parseDurationToSeconds (Some ''79.06375ms'') \<noteq> Some (Fin (7906375 / 100000000))"
  by (simp add: parseDuration_min_sec parseDuration_ms minRe_matches_ms)

section \<open>When the duration parser returns null\<close>

lemma parseDuration_empty: "parseDurationToSeconds (Some '''') = None"
  by code_simp

lemma parseDuration_zero: "parseDurationToSeconds (Some ''0s'') = None"
  by code_simp

lemma durationSeconds_no_match:
  "re_match minRe s = None \<Longrightarrow> re_match secRe s = None \<Longrightarrow> re_match msRe s = None
   \<Longrightarrow> durationSeconds s = Fin 0"
  by (simp add: durationSeconds_def)

text \<open>
  C8.  \<open>parseDurationToSeconds\<close> returns null exactly when its argument is absent or
  empty, or the sum it computed is zero.  The sum is never NaN, so the test
  \<open>seconds || null\<close> is a test for zero.  A string in which none of the three patterns
  matches gives null, and so do \<open>""\<close> and \<open>"0s"\<close>.  The function is total: no step of
  it can throw.
\<close>

theorem parseDuration_null:
  "(parseDurationToSeconds raw = None
      \<longleftrightarrow> raw = None \<or> raw = Some [] \<or> durationSeconds (trim (the raw)) = Fin 0)
   \<and> durationSeconds s \<noteq> NaN
   \<and> (re_match minRe (trim s) = None \<and> re_match secRe (trim s) = None
        \<and> re_match msRe (trim s) = None \<longrightarrow> parseDurationToSeconds (Some s) = None)
   \<and> parseDurationToSeconds (Some '''') = None
   \<and> parseDurationToSeconds (Some ''0s'') = None"
proof -
  have fin: "\<exists>q. durationSeconds x = Fin q" for x
    using durationSeconds_finite[of x] by blast
  have 1: "parseDurationToSeconds raw = None
      \<longleftrightarrow> raw = None \<or> raw = Some [] \<or> durationSeconds (trim (the raw)) = Fin 0"
  proof (cases raw)
    case None
    then show ?thesis by (simp add: parseDurationToSeconds_def truthy_str_def)
  next
    case (Some x)
    from fin[of "trim x"] obtain q where "durationSeconds (trim x) = Fin q" by blast
    with Some show ?thesis
      by (simp add: parseDurationToSeconds_def truthy_str_def truthy_num_def Let_def)
  qed
  have 2: "durationSeconds s \<noteq> NaN" using fin[of s] by auto
  have 3: "re_match minRe (trim s) = None \<and> re_match secRe (trim s) = None
        \<and> re_match msRe (trim s) = None \<longrightarrow> parseDurationToSeconds (Some s) = None"
    by (simp add: durationSeconds_no_match parseDurationToSeconds_def truthy_num_def Let_def)
  from 1 2 3 parseDuration_empty parseDuration_zero show ?thesis by blast
qed

lemma no_unit_in_text:
  "re_match minRe (trim ''1h 30'') = None \<and> re_match secRe (trim ''1h 30'') = None
   \<and> re_match msRe (trim ''1h 30'') = None"
  by code_simp

theorem parseDuration_null_witness:
  "re_match minRe (trim ''1h 30'') = None \<and> re_match secRe (trim ''1h 30'') = None
   \<and> re_match msRe (trim ''1h 30'') = None
   \<and> parseDurationToSeconds (Some ''1h 30'') = None
   \<and> durationSeconds (trim ''1h 30'') = Fin 0"
proof -
  note t = parseDuration_null[of "Some ''1h 30''" "''1h 30''"]
  from t no_unit_in_text have p: "parseDurationToSeconds (Some ''1h 30'') = None" by blast
  with t have "durationSeconds (trim ''1h 30'') = Fin 0" by auto
  with p no_unit_in_text show ?thesis by simp
qed

section \<open>The correctness flag\<close>

lemma normalize_numericAnswer: "numericAnswer (normalize m) = numericAnswer m"
  by (simp add: normalize_def Let_def RawModel.extend_def RawModel.defs)

lemma normalize_correct:
  "correct (normalize m) = strictEq (Number_null (numericAnswer m)) EXPECTED_ANSWER"
  by (simp add: normalize_def Let_def RawModel.extend_def ModelRecord.defs RawModel.defs)

lemma correct_iff: "correct (normalize m) \<longleftrightarrow> numericAnswer m = Some (Fin 3600)"
proof (cases "numericAnswer m")
  case None
  then show ?thesis
    by (simp add: normalize_correct Number_null_def strictEq_def EXPECTED_ANSWER_def)
next
  case (Some n)
  then show ?thesis
    by (cases n) (simp_all add: normalize_correct Number_null_def strictEq_def EXPECTED_ANSWER_def)
qed

text \<open>
  C7.  In every record of a parsed report, \<open>correct\<close> is a boolean, true if and only if
  \<open>numericAnswer\<close> is the number 3600; a record without \<open>numericAnswer\<close> is not correct.
\<close>

theorem correct_flag:
  "\<forall>m \<in> set (parseReport txt).
     (correct m \<longleftrightarrow> numericAnswer m = Some (Fin 3600))
     \<and> (numericAnswer m = None \<longrightarrow> \<not> correct m)"
  by (auto simp: parseReport_def correct_iff normalize_numericAnswer)

lemma report_two_models:
  "map numericAnswer (parseReport (''a:b'' @ [LF] @ ''Step 5: 3600'' @ [LF] @ ''c:d''))
     = [Some (Fin 3600), None]"
  by code_simp

theorem correct_flag_witness:
  "map numericAnswer (parseReport (''a:b'' @ [LF] @ ''Step 5: 3600'' @ [LF] @ ''c:d''))
     = [Some (Fin 3600), None]
   \<and> map correct (parseReport (''a:b'' @ [LF] @ ''Step 5: 3600'' @ [LF] @ ''c:d''))
     = [True, False]"
proof -
  let ?ms = "parseReport (''a:b'' @ [LF] @ ''Step 5: 3600'' @ [LF] @ ''c:d'')"
  from report_two_models obtain m1 m2 where ms: "?ms = [m1, m2]"
    and n: "numericAnswer m1 = Some (Fin 3600)" "numericAnswer m2 = None"
    by (auto simp: map_eq_Cons_conv)
  from correct_flag[of "''a:b'' @ [LF] @ ''Step 5: 3600'' @ [LF] @ ''c:d''"] ms n
  have "correct m1" "\<not> correct m2" by auto
  with ms n show ?thesis by simp
qed

section \<open>The numeric extractor\<close>

lemma run_Repeat_Chr:
  "run (Repeat k (Chr P)) s s' \<longleftrightarrow> (\<exists>m. length m = k \<and> list_all P m \<and> spans s m s')"
proof (induction k arbitrary: s)
  case 0
  show ?case by (auto simp: run_Eps_iff spans_Nil)
next
  case (Suc k)
  have "run (Repeat (Suc k) (Chr P)) s s'
        \<longleftrightarrow> (\<exists>s1. run (Chr P) s s1 \<and> run (Repeat k (Chr P)) s1 s')"
    by (auto simp: run_Seq_iff)
  also have "\<dots> \<longleftrightarrow> (\<exists>s1 c m. P c \<and> spans s [c] s1 \<and> length m = k \<and> list_all P m \<and> spans s1 m s')"
    by (simp only: run_Chr_spans Suc) blast
  also have "\<dots> \<longleftrightarrow> (\<exists>m. length m = Suc k \<and> list_all P m \<and> spans s m s')"
  proof
    assume "\<exists>s1 c m. P c \<and> spans s [c] s1 \<and> length m = k \<and> list_all P m \<and> spans s1 m s'"
    then obtain s1 c m where h: "P c" "spans s [c] s1" "length m = k" "list_all P m" "spans s1 m s'"
      by blast
    have "length (c # m) = Suc k \<and> list_all P (c # m) \<and> spans s (c # m) s'"
      using h(1,3,4) spans_trans[OF h(2) h(5)] by simp
    then show "\<exists>m. length m = Suc k \<and> list_all P m \<and> spans s m s'" by blast
  next
    assume "\<exists>m. length m = Suc k \<and> list_all P m \<and> spans s m s'"
    then obtain m0 where m0: "length m0 = Suc k" "list_all P m0" "spans s m0 s'" by blast
    then obtain c m where "m0 = c # m" by (cases m0) auto
    with m0 have h: "P c" "length m = k" "list_all P m" "spans s (c # m) s'" by auto
    let ?s1 = "(c # bef s, m @ aft s', caps s)"
    have "spans s [c] ?s1" "spans ?s1 m s'"
      using h(4) by (auto simp: spans_def bef_def aft_def caps_def)
    with h show "\<exists>s1 c m. P c \<and> spans s [c] s1 \<and> length m = k \<and> list_all P m \<and> spans s1 m s'"
      by blast
  qed
  finally show ?case .
qed

lemma spans_split:
  "spans s (m @ n) s' \<Longrightarrow> \<exists>s1. spans s m s1 \<and> spans s1 n s'"
proof -
  assume h: "spans s (m @ n) s'"
  let ?s1 = "(rev m @ bef s, n @ aft s', caps s)"
  have "spans s m ?s1" "spans ?s1 n s'"
    using h by (auto simp: spans_def bef_def aft_def caps_def)
  then show ?thesis by blast
qed

lemma run_AtLeast_Chr:
  "run (AtLeast k (Chr P)) s s' \<longleftrightarrow> (\<exists>m. k \<le> length m \<and> list_all P m \<and> spans s m s')"
proof
  assume "run (AtLeast k (Chr P)) s s'"
  then obtain s1 where "run (Repeat k (Chr P)) s s1" "run (Star (Chr P)) s1 s'"
    unfolding AtLeast_def by (subst (asm) run_Seq_iff) blast
  then obtain m n where h: "length m = k" "list_all P m" "spans s m s1" "list_all P n" "spans s1 n s'"
    by (auto simp: run_Repeat_Chr run_Star_Chr_spans)
  have "k \<le> length (m @ n) \<and> list_all P (m @ n) \<and> spans s (m @ n) s'"
    using h(1,2,4) spans_trans[OF h(3) h(5)] by simp
  then show "\<exists>m. k \<le> length m \<and> list_all P m \<and> spans s m s'" by blast
next
  assume "\<exists>m. k \<le> length m \<and> list_all P m \<and> spans s m s'"
  then obtain m where m: "k \<le> length m" "list_all P m" "spans s m s'" by blast
  have "spans s (take k m @ drop k m) s'" using m(3) by simp
  from spans_split[OF this] obtain s1 where s1: "spans s (take k m) s1" "spans s1 (drop k m) s'"
    by blast
  have t: "length (take k m) = k" "list_all P (take k m)" "list_all P (drop k m)"
    using m(1,2) by (auto simp: list_all_iff dest: in_set_takeD in_set_dropD)
  have "length (take k m) = k \<and> list_all P (take k m) \<and> spans s (take k m) s1"
    using s1(1) t by blast
  then have "run (Repeat k (Chr P)) s s1" unfolding run_Repeat_Chr by blast
  moreover have "list_all P (drop k m) \<and> spans s1 (drop k m) s'" using s1(2) t by blast
  then have "run (Star (Chr P)) s1 s'" unfolding run_Star_Chr_spans by blast
  ultimately show "run (AtLeast k (Chr P)) s s'" unfolding AtLeast_def by (rule run_Seq)
qed

lemma minus_not_digit: "\<not> isDigit (CHR ''-'')"
  by (simp add: isDigit_def code_def)

lemma re_test_iff: "re_test r n \<longleftrightarrow> (\<exists>u v e. n = u @ v \<and> run r (rev u, v, []) e)"
  using search_None[of r "[]" n] by (auto simp: re_test_def simp del: split_paired_Ex split_paired_All)

lemma bigIntRe_test: "re_test bigIntRe n \<longleftrightarrow> isBigIntText n"
proof
  assume "re_test bigIntRe n"
  then obtain u v e where uv: "n = u @ v" and r: "run bigIntRe (rev u, v, []) e"
    by (auto simp: re_test_iff simp del: split_paired_Ex)
  from r obtain s1 where 1: "run Bol (rev u, v, []) s1"
    and 2: "run (Seq (Opt (Lit ''-'')) (Seq (AtLeast 3 (Chr isDigit)) Eol)) s1 e"
    unfolding bigIntRe_def by (subst (asm) run_Seq_iff) blast
  from 1 have s1: "s1 = ([], n, [])" and u: "u = []" using uv by (auto simp: run_Bol_iff bef_def)
  from 2 obtain s2 where 3: "run (Opt (Lit ''-'')) s1 s2"
    and 4: "run (Seq (AtLeast 3 (Chr isDigit)) Eol) s2 e"
    by (subst (asm) run_Seq_iff) blast
  from 4 obtain s3 where 5: "run (AtLeast 3 (Chr isDigit)) s2 s3" and 6: "run Eol s3 e"
    by (subst (asm) run_Seq_iff) blast
  from 5 obtain ds where ds: "3 \<le> length ds" "list_all isDigit ds" "spans s2 ds s3"
    by (auto simp: run_AtLeast_Chr)
  from 6 have e: "aft s3 = []" by (simp add: run_Eol_iff)
  with ds(3) have a2: "aft s2 = ds" by (simp add: spans_def)
  from 3 consider "s2 = s1" | "spans s1 ''-'' s2" by (auto simp: run_Opt run_Lit_spans)
  then show "isBigIntText n"
  proof cases
    case 1
    with a2 s1 have n: "n = ds" by (simp add: aft_def)
    obtain c cs where "ds = c # cs" using ds(1) by (cases ds) auto
    with ds n show ?thesis by (auto simp: isBigIntText_def minus_not_digit)
  next
    case 2
    with a2 s1 have "n = CHR ''-'' # ds" by (simp add: spans_def aft_def)
    with ds show ?thesis by (simp add: isBigIntText_def)
  qed
next
  assume h: "isBigIntText n"
  define ds where "ds = (case n of [] \<Rightarrow> [] | c # cs \<Rightarrow> if c = CHR ''-'' then cs else n)"
  from h have ds: "3 \<le> length ds" "list_all isDigit ds"
    by (simp_all add: isBigIntText_def ds_def Let_def)
  have n: "n = ds \<or> n = CHR ''-'' # ds"
    by (cases n) (auto simp: ds_def)
  let ?s2 = "(rev (take (length n - length ds) n), ds, [])"
  let ?e = "(rev ds @ rev (take (length n - length ds) n), [], [])"
  have a: "run Bol ([], n, []) ([], n, [])" by (simp add: run_Bol_iff bef_def)
  have b: "run (Opt (Lit ''-'')) ([], n, []) ?s2"
    using n by (auto simp: run_Opt run_Lit_spans spans_def bef_def aft_def caps_def)
  have "spans ?s2 ds ?e" by (simp add: spans_def bef_def aft_def caps_def)
  then have c: "run (AtLeast 3 (Chr isDigit)) ?s2 ?e" using ds by (auto simp: run_AtLeast_Chr)
  have d: "run Eol ?e ?e" by (simp add: run_Eol_iff aft_def)
  have "run bigIntRe ([], n, []) ?e"
    unfolding bigIntRe_def by (rule run_Seq[OF a run_Seq[OF b run_Seq[OF c d]]])
  then have "\<exists>u v e. n = u @ v \<and> run bigIntRe (rev u, v, []) e"
    by (metis append_Nil rev.simps(1))
  then show "re_test bigIntRe n" by (simp add: re_test_iff del: split_paired_Ex)
qed

lemma match_g_tokens:
  assumes r: "\<And>s e. run r s e \<Longrightarrow> \<exists>m. m \<noteq> [] \<and> Q m \<and> spans s m e"
  shows "\<forall>t \<in> set (match_g r b a). Q t"
  using r
proof (induction r b a rule: match_g.induct)
  case (1 r b)
  have "matchR r (b, [], []) = []"
  proof (cases "matchR r (b, [], [])")
    case (Cons e es)
    then have "run r (b, [], []) e" by (simp add: matchR_run[symmetric])
    from "1.prems"[OF this] show ?thesis by (auto simp: spans_def aft_def)
  qed simp
  then show ?case by simp
next
  case (2 r b c cs)
  show ?case
  proof (cases "matchR r (b, c # cs, [])")
    case Nil
    with "2.IH"(1) "2.prems" show ?thesis by simp
  next
    case (Cons e es)
    then have "run r (b, c # cs, []) e" by (simp add: matchR_run[symmetric])
    from "2.prems"[OF this] obtain m where m: "m \<noteq> []" "Q m" "spans (b, c # cs, []) m e"
      by blast
    from m(1) have lt: "length (aft e) < length (c # cs)"
      using spans_length[OF m(3)] by (simp add: aft_def)
    have "consumed (b, c # cs, []) e = m" using m(3) by (rule spans_consumed)
    with "2.IH"(2)[OF Cons lt "2.prems"] Cons lt m(2) show ?thesis by simp
  qed
qed

lemma numberRe_unsigned: "numberRe = Seq (Opt (Lit ''-'')) unsignedNumberRe"
  by (simp add: numberRe_def unsignedNumberRe_def)

lemma isUnsignedText_nonempty: "isUnsignedText m \<Longrightarrow> m \<noteq> [] \<and> isDigit (hd m)"
  by (auto simp: isUnsignedText_def neq_Nil_conv)

lemma run_numberRe:
  assumes "run numberRe s e"
  shows "\<exists>m. m \<noteq> [] \<and> isSignedText m \<and> spans s m e"
proof -
  from assms obtain s1 where 1: "run (Opt (Lit ''-'')) s s1" and 2: "run unsignedNumberRe s1 e"
    unfolding numberRe_unsigned by (subst (asm) run_Seq_iff) blast
  from run_unsignedNumberRe[OF 2] obtain u where u: "isUnsignedText u" "spans s1 u e" by blast
  from 1 consider "s1 = s" | "spans s ''-'' s1" by (auto simp: run_Opt run_Lit_spans)
  then show ?thesis
  proof cases
    case 1
    with u isUnsignedText_nonempty[OF u(1)] have "u \<noteq> [] \<and> isSignedText u \<and> spans s u e"
      by (simp add: isSignedText_def)
    then show ?thesis by blast
  next
    case 2
    from spans_trans[OF 2 u(2)] u(1)
    have "CHR ''-'' # u \<noteq> [] \<and> isSignedText (CHR ''-'' # u) \<and> spans s (CHR ''-'' # u) e"
      by (simp add: isSignedText_def)
    then show ?thesis by blast
  qed
qed

lemma decimalLiteral_text:
  assumes "isSignedText m"
  shows "\<exists>q. decimalLiteral m = Some q"
proof -
  from assms consider "isUnsignedText m" | u where "m = CHR ''-'' # u" "isUnsignedText u"
    by (auto simp: isSignedText_def)
  then show ?thesis
  proof cases
    case 1
    from isUnsignedText_nonempty[OF 1] obtain c cs where m: "m = c # cs" "isDigit c"
      by (cases m) auto
    then have "c \<noteq> CHR ''-''" using minus_not_digit by auto
    with m unsignedDecimal_text[OF 1] show ?thesis by (auto simp: decimalLiteral_def)
  next
    case 2
    with unsignedDecimal_text[OF 2(2)] show ?thesis by (auto simp: decimalLiteral_def)
  qed
qed

lemma numberTokens_literal: "\<forall>t \<in> set (numberTokens text). \<exists>q. decimalLiteral t = Some q"
proof -
  have "\<forall>t \<in> set (match_g numberRe b a). isSignedText t" for b a
    by (rule match_g_tokens) (rule run_numberRe)
  then show ?thesis using decimalLiteral_text by (auto simp: numberTokens_def)
qed

lemma first_of_filter:
  "(case filter P xs of b # _ \<Rightarrow> b | [] \<Rightarrow> d) = (case find P xs of Some t \<Rightarrow> t | None \<Rightarrow> d)"
  by (induction xs) auto

lemma chosenToken_in: "ts \<noteq> [] \<Longrightarrow> chosenToken ts \<in> set ts"
  by (auto simp: chosenToken_def find_Some_iff split: option.splits)

lemma extractNumber_unfold:
  "extractNumberFromText (Some text) =
     (if numberTokens text = [] then None
      else let num = Number_str (chosenToken (numberTokens text))
           in if isFinite num then Some num else None)"
proof (cases "text = []")
  case True
  have "numberTokens [] = []" by code_simp
  with True show ?thesis by (simp add: extractNumberFromText_def truthy_str_def)
next
  case False
  have f: "filter (re_test bigIntRe) xs = filter isBigIntText xs" for xs
    by (simp add: bigIntRe_test cong: filter_cong)
  define ts where "ts = numberTokens text"
  have g: "re_match_g numberRe (re_replace_g separatorRe '' '' text)
             = (if ts = [] then None else Some ts)"
    by (auto simp: re_match_g_def ts_def numberTokens_def split: list.splits)
  have "extractNumberFromText (Some text) =
     (if ts = [] then None
      else let num = Number_str (chosenToken ts) in if isFinite num then Some num else None)"
    using False
    by (simp add: extractNumberFromText_def truthy_str_def g f first_of_filter
                  chosenToken_def Let_def)
  then show ?thesis by (simp add: ts_def)
qed

lemma extractNumber_null: "extractNumberFromText None = None"
  by (simp add: extractNumberFromText_def truthy_str_def)


subsection \<open>Rounding to a double\<close>

lemma overflowBound_pos: "0 < overflowBound"
proof -
  have "(2::int) ^ 970 < 2 ^ 1024" by (rule power_strict_increasing) simp_all
  then show ?thesis by (simp add: overflowBound_def)
qed

lemma isFinite_toDouble: "isFinite (toDouble q) \<longleftrightarrow> \<bar>q\<bar> < overflowBound"
  using overflowBound_pos by (auto simp: toDouble_def isFinite_def Let_def)

lemma toDouble_overflow: "overflowBound \<le> q \<Longrightarrow> toDouble q = PosInf"
  using overflowBound_pos by (auto simp: toDouble_def)

lemma roundHalfEven_int: "roundHalfEven (of_int z) = z"
  by (simp add: roundHalfEven_def)

lemma small_below_overflow: "n \<le> 2 ^ 53 \<Longrightarrow> (of_int n :: rat) < overflowBound"
proof -
  assume n: "n \<le> 2 ^ 53"
  have "(2::int) ^ 53 \<le> 2 ^ 970" by (rule power_increasing) simp_all
  moreover have "(2::int) ^ 970 + 2 ^ 970 = 2 ^ 971" by simp
  moreover have "(2::int) ^ 971 < 2 ^ 1024" by (rule power_strict_increasing) simp_all
  ultimately have "n < 2 ^ 1024 - 2 ^ 970" using n by linarith
  then show ?thesis unfolding overflowBound_def by (simp only: of_int_less_iff)
qed

lemma toDouble_int_exact:
  assumes "0 \<le> n" and "n \<le> 2 ^ 53"
  shows "toDouble (of_int n) = Fin (of_int n)"
proof (cases "n = 0")
  case True
  then show ?thesis by (simp add: toDouble_def)
next
  case False
  with assms have pos: "0 < n" by simp
  define b where "b = bitlen n"
  from bitlen_bounds[OF pos] have lo: "2 ^ nat (b - 1) \<le> n" and hi: "n < 2 ^ nat b"
    by (simp_all add: b_def)
  have b1: "1 \<le> b" using pos bitlen_eq_zero_iff[of n] bitlen_nonneg[of n] by (simp add: b_def)
  have le: "(2::int) ^ nat (b - 1) \<le> 2 ^ 53" using lo assms(2) by linarith
  have "nat (b - 1) \<le> 53"
  proof (rule power_le_imp_le_exp[of "2::int"])
    show "(1::int) < 2" by simp
    show "(2::int) ^ nat (b - 1) \<le> 2 ^ 53" by (rule le)
  qed
  then have b54: "b \<le> 54" by linarith
  have q: "(of_int n :: rat) \<noteq> 0" "\<bar>of_int n :: rat\<bar> = of_int n" "sgn (of_int n :: rat) = 1"
    "(1::rat) \<le> of_int n"
    using pos by simp_all
  have nov: "\<not> overflowBound \<le> \<bar>of_int n :: rat\<bar>"
    using small_below_overflow[OF assms(2)] q(2) by simp
  have fl: "floorLog2 (of_int n) = b - 1"
    using q(4) by (simp add: floorLog2_def b_def)
  have e: "max (b - 1) (- 1022) = b - 1" using b1 by simp
  define u where "u = pow2 (b - 1 - 52)"
  have td: "toDouble (of_int n) = Fin (of_int (roundHalfEven (of_int n / u)) * u)"
    using q nov by (simp add: toDouble_def fl e Let_def u_def)
  show ?thesis
  proof (cases "b \<le> 53")
    case True
    define k where "k = nat (53 - b)"
    have p: "u = 1 / of_int (2 ^ k)"
    proof (cases "b = 53")
      case True
      then show ?thesis by (simp add: pow2_def k_def u_def)
    next
      case False
      with \<open>b \<le> 53\<close> have "b - 1 - 52 < 0" "- (b - 1 - 52) = 53 - b" by simp_all
      then show ?thesis by (simp add: pow2_def k_def u_def)
    qed
    have "(of_int n :: rat) / u = of_int (n * 2 ^ k)" by (simp add: p)
    then have r: "roundHalfEven (of_int n / u) = n * 2 ^ k"
      by (simp only: roundHalfEven_int)
    have "toDouble (of_int n) = Fin (of_int (roundHalfEven (of_int n / u)) * u)" by (rule td)
    also have "\<dots> = Fin (of_int (n * 2 ^ k) * u)" by (simp only: r)
    also have "\<dots> = Fin (of_int n)" by (simp add: p)
    finally show ?thesis .
  next
    case False
    with b54 have b: "b = 54" by simp
    with lo assms(2) have n: "n = 2 ^ 53" by simp
    have p: "u = 2" by (simp add: b pow2_def u_def)
    have "(of_int n :: rat) / u = of_int (2 ^ 52)" by (simp add: n p)
    then have r: "roundHalfEven (of_int n / u) = 2 ^ 52"
      by (simp only: roundHalfEven_int)
    have "toDouble (of_int n) = Fin (of_int (roundHalfEven (of_int n / u)) * u)" by (rule td)
    also have "\<dots> = Fin (of_int ((2::int) ^ 52) * u)" by (simp only: r)
    also have "\<dots> = Fin (of_int n)" by (simp add: p n)
    finally show ?thesis .
  qed
qed

subsection \<open>The first match of a greedy repetition\<close>

lemma matchR_Star_Chr_hd:
  "\<exists>rest. matchR (Star (Chr P)) (b, a, k) = (rev (takeWhile P a) @ b, dropWhile P a, k) # rest"
proof (induction a arbitrary: b)
  case Nil
  show ?case by (simp add: aft_def)
next
  case (Cons c cs)
  show ?case
  proof (cases "P c")
    case True
    from Cons[of "c # b"] obtain rest where
      "iter (length cs) (matchR (Chr P)) (c # b, cs, k)
         = (rev (takeWhile P cs) @ c # b, dropWhile P cs, k) # rest"
      by (auto simp: aft_def)
    with True show ?thesis by (simp add: aft_def bef_def caps_def)
  next
    case False
    then show ?thesis by (simp add: aft_def bef_def caps_def)
  qed
qed

lemma matchR_Plus_Chr_Nil: "matchR (Plus (Chr P)) (b, [], k) = []"
  by (simp add: Plus_def aft_def)

lemma matchR_Plus_Chr_Cons:
  "matchR (Plus (Chr P)) (b, c # cs, k)
     = (if P c then matchR (Star (Chr P)) (c # b, cs, k) else [])"
  by (simp add: Plus_def aft_def bef_def caps_def)


subsection \<open>A text that is one run of digits\<close>

lemma replace_g_no_match:
  "\<forall>c \<in> set a. \<not> P c \<Longrightarrow> replace_g (Chr P) rep b a = a"
  by (induction a arbitrary: b) (simp_all add: aft_def)

lemma digit_not_separator:
  "isDigit c \<Longrightarrow> \<not> (c = CHR '','' \<or> c = CHR ''^'' \<or> c = LF)"
  by (auto simp: isDigit_def code_def LF_def)

lemma matchR_numberRe_empty: "matchR numberRe (b, [], k) = []"
proof (cases "matchR numberRe (b, [], k)")
  case (Cons e es)
  then have "run numberRe (b, [], k) e" by (simp add: matchR_run[symmetric])
  from run_numberRe[OF this] show ?thesis by (auto simp: spans_def aft_def)
qed simp

lemma matchR_Lit_mismatch: "c \<noteq> d \<Longrightarrow> matchR (Lit (d # l)) (b, c # cs, k) = []"
  by (simp add: Lit_def aft_def)

lemma matchR_Lit_end: "matchR (Lit (d # l)) (b, [], k) = []"
  by (simp add: Lit_def aft_def)

lemma matchR_numberRe_digits:
  assumes "isDigit c" "list_all isDigit cs"
  shows "\<exists>rest. matchR numberRe (b, c # cs, []) = (rev cs @ c # b, [], []) # rest"
proof -
  have c: "c \<noteq> CHR ''-''" using assms(1) minus_not_digit by auto
  from matchR_Star_Chr_hd[of isDigit "c # b" cs "[]"] obtain rest where
    st: "matchR (Star (Chr isDigit)) (c # b, cs, [])
           = (rev cs @ c # b, [], []) # rest"
    by (auto simp: takeWhile_all'[OF assms(2)] dropWhile_all'[OF assms(2)])
  have o: "matchR (Opt (Lit ''-'')) (b, c # cs, []) = [(b, c # cs, [])]"
    using c by (simp add: Opt_def matchR_Lit_mismatch)
  have p: "matchR (Plus (Chr isDigit)) (b, c # cs, []) = (rev cs @ c # b, [], []) # rest"
    using assms(1) st by (simp add: matchR_Plus_Chr_Cons)
  have f: "matchR (Opt (Seq (Lit ''.'') (Plus (Chr isDigit)))) (rev cs @ c # b, [], [])
             = [(rev cs @ c # b, [], [])]"
    by (simp add: Opt_def matchR_Lit_end)
  have "matchR (Seq (Plus (Chr isDigit)) (Opt (Seq (Lit ''.'') (Plus (Chr isDigit)))))
          (b, c # cs, [])
        = (rev cs @ c # b, [], [])
          # concat (map (matchR (Opt (Seq (Lit ''.'') (Plus (Chr isDigit))))) rest)"
    by (simp only: matchR.simps p f list.map concat.simps append.simps)
  then have "matchR numberRe (b, c # cs, [])
        = (rev cs @ c # b, [], [])
          # concat (map (matchR (Opt (Seq (Lit ''.'') (Plus (Chr isDigit))))) rest)"
    unfolding numberRe_def by (simp only: matchR.simps o list.map concat.simps append_Nil2)
  then show ?thesis by blast
qed

lemma numberTokens_digits:
  assumes "ds \<noteq> []" "list_all isDigit ds"
  shows "numberTokens ds = [ds]"
proof -
  from assms obtain c cs where ds: "ds = c # cs" "isDigit c" "list_all isDigit cs"
    by (cases ds) auto
  have "re_replace_g separatorRe '' '' ds = ds"
    unfolding re_replace_g_def separatorRe_def
    by (rule replace_g_no_match) (use assms(2) digit_not_separator in \<open>auto simp: list_all_iff\<close>)
  moreover from matchR_numberRe_digits[OF ds(2,3), of "[]"] obtain rest where
    "matchR numberRe ([], c # cs, []) = (rev cs @ [c], [], []) # rest" by auto
  then have "match_g numberRe [] (c # cs) = [c # cs]"
    by (simp add: aft_def bef_def consumed_def matchR_numberRe_empty)
  ultimately show ?thesis by (simp add: numberTokens_def ds(1))
qed

lemma decimalLiteral_digits:
  assumes "ds \<noteq> []" "list_all isDigit ds"
  shows "decimalLiteral ds = Some (of_int (decNat ds))"
proof -
  from assms obtain c cs where ds: "ds = c # cs" "isDigit c" by (cases ds) auto
  then have "c \<noteq> CHR ''-''" using minus_not_digit by auto
  then have "decimalLiteral ds = unsignedDecimal ds" by (simp add: decimalLiteral_def ds)
  also have "\<dots> = Some (of_int (decNat ds))"
    using assms(1)
    by (simp add: unsignedDecimal_def takeWhile_all'[OF assms(2)] dropWhile_all'[OF assms(2)])
  finally show ?thesis .
qed

lemma decNat_snoc: "decNat (ds @ [c]) = 10 * decNat ds + digitVal c"
  by (simp add: decNat_def)

lemma decNat_nines: "decNat (replicate k (CHR ''9'')) = 10 ^ k - 1"
proof (induction k)
  case 0
  show ?case by (simp add: decNat_def)
next
  case (Suc k)
  have "replicate (Suc k) (CHR ''9'') = replicate k (CHR ''9'') @ [CHR ''9'']"
    by (simp add: replicate_append_same)
  then have "decNat (replicate (Suc k) (CHR ''9'')) = 10 * (10 ^ k - 1) + 9"
    by (simp only: decNat_snoc Suc) (simp add: digitVal_def code_def)
  then show ?case by simp
qed

lemma nines_overflow: "overflowBound \<le> of_int (decNat (replicate 310 (CHR ''9'')))"
proof -
  have "(2::int) ^ 1024 - 2 ^ 970 \<le> 10 ^ 310 - 1" by simp
  then show ?thesis unfolding overflowBound_def decNat_nines by (simp only: of_int_le_iff)
qed

lemma nines_digits: "replicate 310 (CHR ''9'') \<noteq> [] \<and> list_all isDigit (replicate 310 (CHR ''9''))"
  by (simp add: list_all_iff isDigit_def code_def)

text \<open>
  C2, as the code has it.  When the text has no numeric token the result is null.
  Otherwise a token is chosen: the first token that is an integer of three digits or
  more (an optional minus sign, then digits only, so that \<open>3600.5\<close> does not qualify),
  or the last token when no token qualifies.  The result is what \<open>Number\<close> makes of the
  chosen token, the double nearest to its value, unless that is an infinity: then the
  result is null.
\<close>

theorem extractNumber_chosen:
  "(numberTokens text = [] \<longrightarrow> extractNumberFromText (Some text) = None)
   \<and> (numberTokens text \<noteq> [] \<longrightarrow>
        (\<exists>q. decimalLiteral (chosenToken (numberTokens text)) = Some q
             \<and> extractNumberFromText (Some text)
                 = (if \<bar>q\<bar> < overflowBound then Some (toDouble q) else None)))"
proof (cases "numberTokens text = []")
  case True
  then show ?thesis by (simp add: extractNumber_unfold)
next
  case False
  from chosenToken_in[OF False] numberTokens_literal
  obtain q where "decimalLiteral (chosenToken (numberTokens text)) = Some q" by blast
  with False show ?thesis
    by (simp add: extractNumber_unfold Number_str_def isFinite_toDouble Let_def)
qed

lemma tokens_12_3450: "numberTokens ''12 then 3450'' = [''12'', ''3450'']"
  by code_simp

lemma chosen_12_3450: "chosenToken [''12'', ''3450''] = ''3450''"
  by code_simp

lemma literal_3450: "decimalLiteral ''3450'' = Some 3450"
  by code_simp

lemma double_3450: "toDouble 3450 = Fin 3450"
  using toDouble_int_exact[of 3450] by simp

lemma chosen_single: "chosenToken [t] = t"
  by (simp add: chosenToken_def split: option.splits if_splits)

lemma tokens_rounded: "numberTokens ''9007199254740993'' = [''9007199254740993'']"
  by (rule numberTokens_digits) (simp_all add: isDigit_def code_def)

lemma literal_rounded: "decimalLiteral ''9007199254740993'' = Some 9007199254740993"
  by code_simp

lemma double_rounded: "toDouble 9007199254740993 = Fin 9007199254740992"
  by code_simp

theorem extractNumber_chosen_witness:
  "numberTokens ''12 then 3450'' = [''12'', ''3450'']
   \<and> chosenToken (numberTokens ''12 then 3450'') = ''3450''
   \<and> extractNumberFromText (Some ''12 then 3450'') = Some (Fin 3450)
   \<and> extractNumberFromText (Some ''9007199254740993'') = Some (Fin 9007199254740992)
   \<and> numberTokens (replicate 310 (CHR ''9'')) = [replicate 310 (CHR ''9'')]
   \<and> extractNumberFromText (Some (replicate 310 (CHR ''9''))) = None"
proof -
  let ?ds = "replicate 310 (CHR ''9'')"
  have a: "extractNumberFromText (Some ''12 then 3450'') = Some (Fin 3450)"
    using extractNumber_chosen[of "''12 then 3450''"]
    by (simp add: tokens_12_3450 chosen_12_3450 literal_3450 double_3450 overflowBound_def)
  have b: "extractNumberFromText (Some ''9007199254740993'') = Some (Fin 9007199254740992)"
    using extractNumber_chosen[of "''9007199254740993''"]
    by (simp add: tokens_rounded chosen_single literal_rounded double_rounded overflowBound_def)
  have t: "numberTokens ?ds = [?ds]"
    using nines_digits by (intro numberTokens_digits) blast+
  have l: "decimalLiteral ?ds = Some (of_int (decNat ?ds))"
    using nines_digits by (intro decimalLiteral_digits) blast+
  have n: "\<not> \<bar>of_int (decNat ?ds) :: rat\<bar> < overflowBound"
    using nines_overflow by linarith
  have c: "extractNumberFromText (Some ?ds) = None"
    using extractNumber_chosen[of ?ds] unfolding t chosen_single l using n by simp
  from a b t c show ?thesis by (simp only: tokens_12_3450 chosen_12_3450 simp_thms)
qed

lemma tokens_decimal: "numberTokens ''3600.5 and 12'' = [''3600.5'', ''12'']"
  by code_simp

lemma extract_decimal: "extractNumberFromText (Some ''3600.5 and 12'') = Some (Fin 12)"
  by code_simp

text \<open>
  The claim as stated fails: in \<open>"3600.5 and 12"\<close> the first token, \<open>3600.5\<close>, has four
  integer digits, and the result is 12, the last token.
\<close>

theorem extractNumber_decimal_counterexample:
  "numberTokens ''3600.5 and 12'' = [''3600.5'', ''12'']
   \<and> extractNumberFromText (Some ''3600.5 and 12'') = Some (Fin 12)
   \<and> extractNumberFromText (Some ''3600.5 and 12'') \<noteq> Some (Fin (7201 / 2))"
  by (simp add: tokens_decimal extract_decimal)

text \<open>The text that the rate pattern captures is a decimal literal too.\<close>

lemma rate_is_number:
  assumes "re_match signedNumberRe v = Some m"
  shows "\<exists>q. Number_undef (matchGroup m 1) = toDouble q"
proof -
  obtain st e where m: "m = (st, e)" by (cases m)
  with assms have "run (Group 1 numberRe) st e"
    using search_Some[of signedNumberRe "[]" v st e] by (simp add: re_match_def signedNumberRe_def)
  then obtain s0 where s0: "run numberRe st s0"
    and e: "e = (bef s0, aft s0, (1, consumed st s0) # caps s0)"
    by (subst (asm) run_Group_iff) blast
  from run_numberRe[OF s0] obtain t where t: "isSignedText t" "spans st t s0" by blast
  have "matchGroup m 1 = Some t"
    using e t(2) by (simp add: m matchGroup_def caps_def spans_consumed)
  with decimalLiteral_text[OF t(1)] show ?thesis
    by (auto simp: Number_undef_def Number_str_def)
qed

section \<open>The token counts\<close>

lemma length_takeWhile_dropWhile: "length xs - length (dropWhile P xs) = length (takeWhile P xs)"
proof -
  have "length (takeWhile P xs @ dropWhile P xs) = length xs" by simp
  then show ?thesis by (simp del: takeWhile_dropWhile_id)
qed

lemma search_firstDigits:
  "map_option (\<lambda>m. matchGroup m 0) (search firstDigitsRe b a)
     = (if list_ex isDigit a then Some (Some (firstDigits a)) else None)"
proof (induction a arbitrary: b)
  case Nil
  show ?case by (simp add: firstDigitsRe_def matchR_Plus_Chr_Nil)
next
  case (Cons c cs)
  show ?case
  proof (cases "isDigit c")
    case True
    from matchR_Star_Chr_hd[of isDigit "c # b" cs "[]"] obtain rest where
      "matchR (Star (Chr isDigit)) (c # b, cs, [])
         = (rev (takeWhile isDigit cs) @ c # b, dropWhile isDigit cs, []) # rest" by blast
    with True have
      "search firstDigitsRe b (c # cs)
         = Some ((b, c # cs, []), (rev (takeWhile isDigit cs) @ c # b, dropWhile isDigit cs, []))"
      by (simp add: firstDigitsRe_def matchR_Plus_Chr_Cons)
    moreover have "Suc (length cs) - length (dropWhile isDigit cs) = Suc (length (takeWhile isDigit cs))"
      using length_takeWhile_dropWhile[of cs isDigit] length_dropWhile_le[of isDigit cs] by linarith
    ultimately show ?thesis using True
      by (simp add: matchGroup_def consumed_def aft_def firstDigits_def takeWhile_eq_take[symmetric])
  next
    case False
    then have "search firstDigitsRe b (c # cs) = search firstDigitsRe (c # b) cs"
      by (simp add: firstDigitsRe_def matchR_Plus_Chr_Cons)
    with False Cons[of "c # b"] show ?thesis by (simp add: firstDigits_def)
  qed
qed

lemma firstDigits_digits:
  "list_ex isDigit v \<Longrightarrow> firstDigits v \<noteq> [] \<and> list_all isDigit (firstDigits v)"
proof -
  assume "list_ex isDigit v"
  then have "dropWhile (\<lambda>c. \<not> isDigit c) v \<noteq> []" by (auto simp: list_ex_iff)
  then obtain c cs where d: "dropWhile (\<lambda>c. \<not> isDigit c) v = c # cs" by (cases "dropWhile (\<lambda>c. \<not> isDigit c) v") auto
  then have "isDigit c" using hd_dropWhile[of "\<lambda>c. \<not> isDigit c" v] by auto
  with d show ?thesis by (auto simp: firstDigits_def list_all_iff dest: set_takeWhileD)
qed

lemma Number_str_digits:
  assumes "ds \<noteq> []" "list_all isDigit ds"
  shows "Number_str ds = toDouble (of_int (decNat ds))"
  by (simp add: Number_str_def decimalLiteral_digits[OF assms])

lemma countOf_words: "countOf x = countInWords x"
proof (cases x)
  case None
  then show ?thesis by (simp add: countOf_def countInWords_def truthy_str_def)
next
  case (Some v)
  show ?thesis
  proof (cases "list_ex isDigit v")
    case True
    with search_firstDigits[of "[]" v] obtain m where
      m: "re_match firstDigitsRe v = Some m" "matchGroup m 0 = Some (firstDigits v)"
      by (auto simp: re_match_def)
    from True have "v \<noteq> []" by auto
    with True m Some firstDigits_digits[OF True] show ?thesis
      by (simp add: countOf_def countInWords_def truthy_str_def Number_undef_def Number_str_digits)
  next
    case False
    with search_firstDigits[of "[]" v] have "re_match firstDigitsRe v = None"
      by (simp add: re_match_def)
    with False Some show ?thesis
      by (simp add: countOf_def countInWords_def truthy_str_def Number_undef_def)
  qed
qed

lemma normalize_promptCount: "promptCount (normalize m) = countOf (metrics m ''prompt eval count'')"
  by (simp add: normalize_def Let_def RawModel.extend_def ModelRecord.defs RawModel.defs)

lemma normalize_evalCount: "evalCount (normalize m) = countOf (metrics m ''eval count'')"
  by (simp add: normalize_def Let_def RawModel.extend_def ModelRecord.defs RawModel.defs)

lemma decNat_firstDigits_nonneg: "0 \<le> decNat (firstDigits v)"
proof -
  have "list_all isDigit (firstDigits v)"
    by (auto simp: firstDigits_def list_all_iff dest: set_takeWhileD)
  then show ?thesis by (rule decNat_nonneg)
qed

text \<open>
  C6, as the code has it.  For every raw record, \<open>promptCount\<close> and \<open>evalCount\<close> are what
  \<open>countInWords\<close> makes of the metric string of their label: null when the label is
  missing (or its value is empty), NaN when the metric string has no digit, and else the
  double nearest to the integer that the first run of digits writes.  That double is the
  integer itself up to \<open>2^53\<close>, and it is the positive infinity from \<open>2^1024 - 2^970\<close> on.
  The conversion is total: nothing is thrown.
\<close>

theorem counts_in_words:
  "promptCount (normalize m) = countInWords (metrics m ''prompt eval count'')
   \<and> evalCount (normalize m) = countInWords (metrics m ''eval count'')
   \<and> countInWords None = None
   \<and> countInWords (Some []) = None
   \<and> (v \<noteq> [] \<and> \<not> list_ex isDigit v \<longrightarrow> countInWords (Some v) = Some NaN)
   \<and> (list_ex isDigit v \<and> decNat (firstDigits v) \<le> 2 ^ 53
        \<longrightarrow> countInWords (Some v) = Some (Fin (of_int (decNat (firstDigits v)))))
   \<and> (list_ex isDigit v \<and> overflowBound \<le> of_int (decNat (firstDigits v))
        \<longrightarrow> countInWords (Some v) = Some PosInf)"
proof -
  have a: "promptCount (normalize m) = countInWords (metrics m ''prompt eval count'')"
    by (simp add: normalize_promptCount countOf_words)
  have b: "evalCount (normalize m) = countInWords (metrics m ''eval count'')"
    by (simp add: normalize_evalCount countOf_words)
  have c: "countInWords None = None" "countInWords (Some []) = None"
    by (simp_all add: countInWords_def)
  have d: "v \<noteq> [] \<and> \<not> list_ex isDigit v \<longrightarrow> countInWords (Some v) = Some NaN"
    by (simp add: countInWords_def)
  have e: "list_ex isDigit v \<and> decNat (firstDigits v) \<le> 2 ^ 53
        \<longrightarrow> countInWords (Some v) = Some (Fin (of_int (decNat (firstDigits v))))"
  proof
    assume h: "list_ex isDigit v \<and> decNat (firstDigits v) \<le> 2 ^ 53"
    then have "v \<noteq> []" by auto
    moreover have "toDouble (of_int (decNat (firstDigits v))) = Fin (of_int (decNat (firstDigits v)))"
      using h decNat_firstDigits_nonneg by (intro toDouble_int_exact) blast+
    ultimately show "countInWords (Some v) = Some (Fin (of_int (decNat (firstDigits v))))"
      using h by (simp add: countInWords_def)
  qed
  have f: "list_ex isDigit v \<and> overflowBound \<le> of_int (decNat (firstDigits v))
        \<longrightarrow> countInWords (Some v) = Some PosInf"
  proof
    assume h: "list_ex isDigit v \<and> overflowBound \<le> of_int (decNat (firstDigits v))"
    then have "v \<noteq> []" by auto
    moreover have "toDouble (of_int (decNat (firstDigits v))) = PosInf"
      using h by (intro toDouble_overflow) blast
    ultimately show "countInWords (Some v) = Some PosInf"
      using h by (simp add: countInWords_def)
  qed
  from a b c d e f show ?thesis by blast
qed

lemma firstDigits_512: "firstDigits ''512 token(s)'' = ''512''"
  by code_simp

lemma decNat_512: "decNat ''512'' = 512"
  by code_simp

lemma digit_in_512: "list_ex isDigit ''512 token(s)''"
  by code_simp

lemma no_digit_in_na: "\<not> list_ex isDigit ''n/a''"
  by code_simp

lemma firstDigits_digits_all:
  assumes "ds \<noteq> []" "list_all isDigit ds"
  shows "firstDigits ds = ds"
proof -
  from assms obtain c cs where ds: "ds = c # cs" "isDigit c" by (cases ds) auto
  then have "dropWhile (\<lambda>c. \<not> isDigit c) ds = ds" by simp
  then show ?thesis by (simp add: firstDigits_def takeWhile_all'[OF assms(2)])
qed

theorem counts_in_words_witness:
  "evalCount (normalize \<lparr>name = ''m:v'', answerLine = None, numericAnswer = None,
                         metrics = [''eval count'' \<mapsto> ''512 token(s)'']\<rparr>) = Some (Fin 512)
   \<and> promptCount (normalize \<lparr>name = ''m:v'', answerLine = None, numericAnswer = None,
                         metrics = [''eval count'' \<mapsto> ''512 token(s)'']\<rparr>) = None
   \<and> evalCount (normalize \<lparr>name = ''m:v'', answerLine = None, numericAnswer = None,
                         metrics = [''eval count'' \<mapsto> ''n/a'']\<rparr>) = Some NaN
   \<and> evalCount (normalize \<lparr>name = ''m:v'', answerLine = None, numericAnswer = None,
                         metrics = [''eval count'' \<mapsto> replicate 310 (CHR ''9'')]\<rparr>)
       = Some PosInf"
proof -
  let ?ds = "replicate 310 (CHR ''9'')"
  let ?m = "\<lambda>v. \<lparr>name = ''m:v'', answerLine = None, numericAnswer = None,
                  metrics = [''eval count'' \<mapsto> v]\<rparr>"
  have fd: "firstDigits ?ds = ?ds"
    using nines_digits by (intro firstDigits_digits_all) blast+
  have ex: "list_ex isDigit ?ds" by (simp add: list_ex_iff isDigit_def code_def)
  have 1: "evalCount (normalize (?m ''512 token(s)'')) = Some (Fin 512)"
    using counts_in_words[of "?m ''512 token(s)''" "''512 token(s)''"]
    by (simp add: firstDigits_512 decNat_512 digit_in_512 del: list_ex_Cons_iff)
  have 2: "promptCount (normalize (?m ''512 token(s)'')) = None"
    using counts_in_words[of "?m ''512 token(s)''" "''512 token(s)''"]
    by (simp del: list_ex_Cons_iff)
  have 3: "evalCount (normalize (?m ''n/a'')) = Some NaN"
    using counts_in_words[of "?m ''n/a''" "''n/a''"] by (simp add: no_digit_in_na del: list_ex_Cons_iff)
  have 4: "evalCount (normalize (?m ?ds)) = Some PosInf"
    using counts_in_words[of "?m ?ds" ?ds] nines_overflow ex unfolding fd
    by (simp del: list_ex_Cons_iff)
  from 1 2 3 4 show ?thesis by blast
qed

lemma report_without_digits:
  "map evalCount (parseReport (''m:v'' @ [LF] @ ''eval count: n/a'')) = [Some NaN]"
  by code_simp

text \<open>
  The claim as stated fails: a metric string without a digit gives NaN, not an absent
  value.
\<close>

theorem count_without_digits_counterexample:
  "map evalCount (parseReport (''m:v'' @ [LF] @ ''eval count: n/a'')) = [Some NaN]
   \<and> map evalCount (parseReport (''m:v'' @ [LF] @ ''eval count: n/a'')) \<noteq> [None]
   \<and> \<not> isFinite NaN"
  using report_without_digits by (simp add: isFinite_def)

section \<open>The loop over the lines\<close>

lemma trim_no_trailing_space: "trim raw = [] \<or> \<not> isSpace (last (trim raw))"
proof -
  let ?d = "dropWhile isSpace (rev (trimStart raw))"
  have "trim raw = rev ?d" by (simp add: trim_def trimEnd_def)
  moreover have "?d = [] \<or> \<not> isSpace (hd ?d)" using hd_dropWhile[of isSpace] by blast
  ultimately show ?thesis by (auto simp: last_rev)
qed

lemma no_trailing_space_search:
  assumes "l = [] \<or> \<not> isSpace (last l)"
  shows "search trailingSpaceRe [] l = None"
proof -
  have "\<not> run trailingSpaceRe (rev u, v, []) e" if uv: "l = u @ v" for u v e
  proof
    assume "run trailingSpaceRe (rev u, v, []) e"
    then obtain s1 where 1: "run (Plus (Chr isSpace)) (rev u, v, []) s1" and 2: "run Eol s1 e"
      unfolding trailingSpaceRe_def by (subst (asm) run_Seq_iff) blast
    from 1 obtain m where m: "m \<noteq> []" "list_all isSpace m" "spans (rev u, v, []) m s1"
      by (auto simp: run_Plus_Chr_spans)
    from 2 have "aft s1 = []" by (simp add: run_Eol_iff)
    with m(3) have "v = m" by (simp add: spans_def aft_def)
    with uv m(1) have "l \<noteq> []" "last l = last m" by auto
    moreover have "isSpace (last m)" using m(1,2) by (auto simp: list_all_iff)
    ultimately show False using assms by auto
  qed
  then show ?thesis by (simp add: search_None del: split_paired_All)
qed

lemma replace_trimmed: "re_replace trailingSpaceRe [] (trim raw) = trim raw"
  by (simp add: re_replace_def no_trailing_space_search[OF trim_no_trailing_space])

lemma loopBody_skip: "\<not> keepLine raw \<Longrightarrow> loopBody st raw = st"
  by (auto simp: keepLine_def loopBody_def Let_def)

lemma loopBody_header:
  "isHeaderLine raw \<Longrightarrow>
     loopBody st raw = \<lparr>models = pushCur st, cur = Some (freshModel (trim raw)),
                         afterHeaderLineCount = 0\<rparr>"
  by (simp add: isHeaderLine_def keepLine_def loopBody_def Let_def replace_trimmed freshModel_def)

lemma captureAnswer_name: "name (captureAnswer c raw) = name c"
  by (simp add: captureAnswer_def Let_def)

lemma loopBody_body_None:
  "\<not> isHeaderLine raw \<Longrightarrow> cur st = None \<Longrightarrow> loopBody st raw = st"
  by (auto simp: isHeaderLine_def keepLine_def loopBody_def Let_def)

lemma loopBody_body_Some:
  assumes "\<not> isHeaderLine raw" "cur st = Some c"
  shows "\<exists>c' n. name c' = name c \<and> (\<forall>ms. loopBody (st\<lparr>models := ms\<rparr>) raw
            = \<lparr>models = ms, cur = Some c', afterHeaderLineCount = n\<rparr>)"
proof (cases "keepLine raw")
  case False
  have "st\<lparr>models := ms\<rparr> = \<lparr>models = ms, cur = Some c, afterHeaderLineCount = afterHeaderLineCount st\<rparr>" for ms
    using assms(2) by (cases st) simp
  with False show ?thesis by (metis loopBody_skip)
next
  case True
  with assms(1) have h: "trim raw \<noteq> []" "\<not> startsWith (trim raw) ''```''" "\<not> isModelHeader (trim raw)"
    by (auto simp: isHeaderLine_def keepLine_def)
  let ?n = "afterHeaderLineCount st + 1"
  consider (early) "\<not> truthy_str (answerLine c) \<and> ?n \<le> 6 \<and> isEarlyAnswer (trim raw)"
    | (metric) m where "\<not> (\<not> truthy_str (answerLine c) \<and> ?n \<le> 6 \<and> isEarlyAnswer (trim raw))"
        "re_match metricRe raw = Some m"
    | (fallback) "\<not> (\<not> truthy_str (answerLine c) \<and> ?n \<le> 6 \<and> isEarlyAnswer (trim raw))"
        "re_match metricRe raw = None"
        "\<not> truthy_str (answerLine c) \<and> re_test bigNumberRe (trim raw) \<and> \<not> re_test metricWordRe (trim raw)"
    | (other) "\<not> (\<not> truthy_str (answerLine c) \<and> ?n \<le> 6 \<and> isEarlyAnswer (trim raw))"
        "re_match metricRe raw = None"
        "\<not> (\<not> truthy_str (answerLine c) \<and> re_test bigNumberRe (trim raw) \<and> \<not> re_test metricWordRe (trim raw))"
    by (cases "re_match metricRe raw") blast+
  then show ?thesis
  proof cases
    case early
    have "\<forall>ms. loopBody (st\<lparr>models := ms\<rparr>) raw
            = \<lparr>models = ms, cur = Some (captureAnswer c raw), afterHeaderLineCount = ?n\<rparr>"
      using h assms(2) early by (cases st) (auto simp: loopBody_def Let_def)
    then show ?thesis using captureAnswer_name by blast
  next
    case metric
    let ?c' = "c\<lparr>metrics := (metrics c)(toLowerCase (group1 m) \<mapsto> trim (group2 m))\<rparr>"
    have "\<forall>ms. loopBody (st\<lparr>models := ms\<rparr>) raw
            = \<lparr>models = ms, cur = Some ?c', afterHeaderLineCount = ?n\<rparr>"
      using h assms(2) metric by (cases st) (auto simp: loopBody_def Let_def)
    moreover have "name ?c' = name c" by simp
    ultimately show ?thesis by blast
  next
    case fallback
    have "\<forall>ms. loopBody (st\<lparr>models := ms\<rparr>) raw
            = \<lparr>models = ms, cur = Some (captureAnswer c raw), afterHeaderLineCount = ?n\<rparr>"
      using h assms(2) fallback by (cases st) (auto simp: loopBody_def Let_def)
    then show ?thesis using captureAnswer_name by blast
  next
    case other
    have "\<forall>ms. loopBody (st\<lparr>models := ms\<rparr>) raw
            = \<lparr>models = ms, cur = Some c, afterHeaderLineCount = ?n\<rparr>"
      using h assms(2) other by (cases st) (auto simp: loopBody_def Let_def)
    then show ?thesis by blast
  qed
qed

lemma fold_skip: "foldl loopBody st ls = foldl loopBody st (filter keepLine ls)"
  by (induction ls arbitrary: st) (simp_all add: loopBody_skip)

lemma set_models_same: "st\<lparr>models := models st\<rparr> = st"
  by simp

lemma names_step:
  "map name (pushCur (loopBody st raw))
     = map name (pushCur st) @ (if isHeaderLine raw then [trim raw] else [])"
proof (cases "isHeaderLine raw")
  case True
  then show ?thesis by (simp add: loopBody_header pushCur_def freshModel_def)
next
  case False
  show ?thesis
  proof (cases "cur st")
    case None
    with False show ?thesis by (simp add: loopBody_body_None)
  next
    case (Some c)
    from loopBody_body_Some[OF False Some] obtain c' n where c': "name c' = name c"
      and "\<forall>ms. loopBody (st\<lparr>models := ms\<rparr>) raw
             = \<lparr>models = ms, cur = Some c', afterHeaderLineCount = n\<rparr>" by blast
    then have "loopBody (st\<lparr>models := models st\<rparr>) raw
             = \<lparr>models = models st, cur = Some c', afterHeaderLineCount = n\<rparr>" by blast
    then have "loopBody st raw = \<lparr>models = models st, cur = Some c', afterHeaderLineCount = n\<rparr>"
      by (simp only: set_models_same)
    with False Some c' show ?thesis by (simp add: pushCur_def)
  qed
qed

lemma names_fold:
  "map name (pushCur (foldl loopBody st ls))
     = map name (pushCur st) @ map trim (filter isHeaderLine ls)"
  by (induction ls arbitrary: st) (simp_all add: names_step)

lemma readModels_names: "map name (readModels ls) = map trim (filter isHeaderLine ls)"
  using names_fold[of "\<lparr>models = [], cur = None, afterHeaderLineCount = 0\<rparr>" ls]
  by (simp add: readModels_def Let_def pushCur_def)

lemma normalize_name: "name (normalize m) = name m"
  by (simp add: normalize_def Let_def RawModel.extend_def RawModel.defs)

lemma parseReport_names:
  "map name (parseReport txt) = map trim (filter isHeaderLine (re_split lineBreakRe txt))"
proof -
  have "map name (parseReport txt) = map name (readModels (re_split lineBreakRe txt))"
    by (simp add: parseReport_def normalize_name)
  then show ?thesis by (simp add: readModels_names)
qed

text \<open>
  C3, as the code has it.  The names of the records of a parsed report are the header
  lines of the report, trimmed, one record for each header line and in the order of the
  report; no name is empty.  Nothing makes the names distinct: a header line that comes
  twice opens two records of the same name.
\<close>

theorem names_in_report_order:
  "map name (parseReport txt) = map trim (filter isHeaderLine (re_split lineBreakRe txt))
   \<and> (\<forall>m \<in> set (parseReport txt). name m \<noteq> [])"
proof -
  have "\<forall>n \<in> set (map name (parseReport txt)). n \<noteq> []"
    unfolding parseReport_names by (auto simp: isHeaderLine_def keepLine_def)
  then have "\<forall>m \<in> set (parseReport txt). name m \<noteq> []" by auto
  with parseReport_names[of "txt"] show ?thesis by blast
qed

lemma lines_of_three:
  "re_split lineBreakRe (''a:b'' @ [CR, LF] @ ''  12 apples'' @ [LF] @ '' c:d '')
     = [''a:b'', ''  12 apples'', '' c:d '']"
  by code_simp

lemma headers_of_three:
  "filter isHeaderLine [''a:b'', ''  12 apples'', '' c:d ''] = [''a:b'', '' c:d '']"
  by code_simp

lemma trim_headers: "map trim [''a:b'', '' c:d ''] = [''a:b'', ''c:d'']"
  by code_simp

theorem names_in_report_order_witness:
  "map name (parseReport (''a:b'' @ [CR, LF] @ ''  12 apples'' @ [LF] @ '' c:d ''))
     = [''a:b'', ''c:d'']"
  using names_in_report_order[of "''a:b'' @ [CR, LF] @ ''  12 apples'' @ [LF] @ '' c:d ''"]
  by (simp only: lines_of_three headers_of_three trim_headers)

lemma names_repeated:
  "map name (parseReport (''a:b'' @ [LF] @ ''a:b'')) = [''a:b'', ''a:b'']"
  by code_simp

text \<open>
  The claim as stated fails: the report with the header line \<open>a:b\<close> twice gives two
  records named \<open>a:b\<close>.
\<close>

theorem names_distinct_counterexample:
  "map name (parseReport (''a:b'' @ [LF] @ ''a:b'')) = [''a:b'', ''a:b'']
   \<and> \<not> distinct (map name (parseReport (''a:b'' @ [LF] @ ''a:b'')))"
  using names_repeated by simp

section \<open>Segments\<close>

lemma fold_before_first_header:
  "\<forall>l \<in> set pre. \<not> isHeaderLine l \<Longrightarrow> cur st = None \<Longrightarrow> foldl loopBody st pre = st"
  by (induction pre arbitrary: st) (simp_all add: loopBody_body_None)

lemma fold_body:
  assumes "\<forall>l \<in> set b. \<not> isHeaderLine l" "cur st = Some c"
  shows "\<exists>c' n. name c' = name c \<and> (\<forall>ms. foldl loopBody (st\<lparr>models := ms\<rparr>) b
            = \<lparr>models = ms, cur = Some c', afterHeaderLineCount = n\<rparr>)"
  using assms
proof (induction b arbitrary: st c)
  case Nil
  have "st\<lparr>models := ms\<rparr> = \<lparr>models = ms, cur = Some c, afterHeaderLineCount = afterHeaderLineCount st\<rparr>" for ms
    using Nil(2) by (cases st) simp
  then show ?case by auto
next
  case (Cons raw b)
  from Cons.prems have nh: "\<not> isHeaderLine raw" and rest: "\<forall>l \<in> set b. \<not> isHeaderLine l" by auto
  from loopBody_body_Some[OF nh Cons.prems(2)] obtain c1 n1 where c1: "name c1 = name c"
    and step: "\<forall>ms. loopBody (st\<lparr>models := ms\<rparr>) raw
             = \<lparr>models = ms, cur = Some c1, afterHeaderLineCount = n1\<rparr>" by blast
  let ?s1 = "\<lparr>models = [], cur = Some c1, afterHeaderLineCount = n1\<rparr>"
  have "cur ?s1 = Some c1" by simp
  from Cons.IH[OF rest this] obtain c' n where c': "name c' = name c1"
    and fold: "\<forall>ms. foldl loopBody (?s1\<lparr>models := ms\<rparr>) b
             = \<lparr>models = ms, cur = Some c', afterHeaderLineCount = n\<rparr>" by blast
  have "foldl loopBody (st\<lparr>models := ms\<rparr>) (raw # b)
             = \<lparr>models = ms, cur = Some c', afterHeaderLineCount = n\<rparr>" for ms
    using step[rule_format, of ms] fold[rule_format, of ms] by simp
  with c' c1 show ?case by auto
qed

lemma readModels_skip: "readModels ls = readModels (filter keepLine ls)"
  using fold_skip[of "\<lparr>models = [], cur = None, afterHeaderLineCount = 0\<rparr>" ls]
  by (simp add: readModels_def Let_def)

lemma readModels_one_segment:
  assumes h: "isHeaderLine h" and b: "\<forall>l \<in> set b. \<not> isHeaderLine l"
  shows "\<exists>c n. name c = trim h
           \<and> readModels (h # filter keepLine b) = [c]
           \<and> (\<forall>ms. foldl loopBody \<lparr>models = ms, cur = Some (freshModel (trim h)),
                                    afterHeaderLineCount = 0\<rparr> b
                 = \<lparr>models = ms, cur = Some c, afterHeaderLineCount = n\<rparr>)"
proof -
  let ?S = "\<lparr>models = [], cur = Some (freshModel (trim h)), afterHeaderLineCount = 0\<rparr>"
  have "cur ?S = Some (freshModel (trim h))" by simp
  from fold_body[OF b this] obtain c n where c: "name c = name (freshModel (trim h))"
    and f: "\<forall>ms. foldl loopBody (?S\<lparr>models := ms\<rparr>) b
             = \<lparr>models = ms, cur = Some c, afterHeaderLineCount = n\<rparr>" by blast
  have f': "foldl loopBody \<lparr>models = ms, cur = Some (freshModel (trim h)), afterHeaderLineCount = 0\<rparr> b
             = \<lparr>models = ms, cur = Some c, afterHeaderLineCount = n\<rparr>" for ms
    using f[rule_format, of ms] by simp
  have "readModels (h # filter keepLine b) = readModels (h # b)"
    using readModels_skip[of "h # b"] h by (simp add: isHeaderLine_def)
  also have "\<dots> = pushCur (foldl loopBody ?S b)"
    by (simp add: readModels_def Let_def loopBody_header[OF h] pushCur_def)
  also have "\<dots> = [c]" by (simp add: f' pushCur_def)
  finally have "readModels (h # filter keepLine b) = [c]" .
  moreover have "name c = trim h" using c by (simp add: freshModel_def)
  ultimately show ?thesis using f' by blast
qed

lemma fence_line_skipped: "trim raw = ''```'' \<Longrightarrow> \<not> keepLine raw"
  by (simp add: keepLine_def)

lemma blank_line_skipped: "trim raw = [] \<Longrightarrow> \<not> keepLine raw"
  by (simp add: keepLine_def)

lemma fence_prefix_skipped: "startsWith (trim raw) ''```'' \<Longrightarrow> \<not> keepLine raw"
  by (simp add: keepLine_def)

lemma loopBody_kept:
  assumes "keepLine raw" "\<not> isHeaderLine raw" "cur st = Some c"
  shows "afterHeaderLineCount (loopBody st raw) = afterHeaderLineCount st + 1
         \<and> models (loopBody st raw) = models st
         \<and> (\<exists>c'. cur (loopBody st raw) = Some c' \<and> name c' = name c)"
proof -
  from assms(1,2) have h: "trim raw \<noteq> []" "\<not> startsWith (trim raw) ''```''"
      "\<not> isModelHeader (trim raw)"
    by (auto simp: isHeaderLine_def keepLine_def)
  show ?thesis
    using h assms(3)
    by (cases "re_match metricRe raw") (auto simp: loopBody_def Let_def captureAnswer_name)
qed

lemma loopBody_metric:
  assumes "keepLine raw" "\<not> isHeaderLine raw" "cur st = Some c"
    and "\<not> isEarlyAnswer (trim raw)" "re_match metricRe raw = Some m"
  shows "cur (loopBody st raw)
           = Some (c\<lparr>metrics := (metrics c)(toLowerCase (group1 m) \<mapsto> trim (group2 m))\<rparr>)"
proof -
  from assms(1,2) have h: "trim raw \<noteq> []" "\<not> startsWith (trim raw) ''```''"
      "\<not> isModelHeader (trim raw)"
    by (auto simp: isHeaderLine_def keepLine_def)
  show ?thesis using h assms(3-5) by (simp add: loopBody_def Let_def)
qed

lemma loopBody_answer:
  assumes "keepLine raw" "\<not> isHeaderLine raw" "cur st = Some c"
    and "\<not> truthy_str (answerLine c)" "afterHeaderLineCount st < 6" "isEarlyAnswer (trim raw)"
  shows "cur (loopBody st raw) = Some (captureAnswer c raw)"
proof -
  from assms(1,2) have h: "trim raw \<noteq> []" "\<not> startsWith (trim raw) ''```''"
      "\<not> isModelHeader (trim raw)"
    by (auto simp: isHeaderLine_def keepLine_def)
  show ?thesis using h assms(3-6) by (simp add: loopBody_def Let_def)
qed

lemma fold_count:
  assumes "\<forall>l \<in> set b. \<not> isHeaderLine l" "cur st = Some c"
  shows "afterHeaderLineCount (foldl loopBody st b)
           = afterHeaderLineCount st + length (filter keepLine b)"
  using assms
proof (induction b arbitrary: st c)
  case Nil
  show ?case by simp
next
  case (Cons raw b)
  from Cons.prems have nh: "\<not> isHeaderLine raw" and rest: "\<forall>l \<in> set b. \<not> isHeaderLine l" by auto
  show ?case
  proof (cases "keepLine raw")
    case True
    from loopBody_kept[OF True nh Cons.prems(2)] obtain c' where
      n: "afterHeaderLineCount (loopBody st raw) = afterHeaderLineCount st + 1"
      and c': "cur (loopBody st raw) = Some c'" by blast
    from Cons.IH[OF rest c'] n True show ?thesis by simp
  next
    case False
    with Cons.IH[OF rest Cons.prems(2)] show ?thesis by (simp add: loopBody_skip)
  qed
qed

text \<open>
  C4, as the code has it.  A blank line, and a line that starts with a triple backtick
  (the fence marker alone, and a line such as \<open>```json\<close> as well), leaves the state of
  the loop as it is, so the records of a report are those of its other lines, the kept
  lines.  A kept line that is not a header line, read while a segment is open, is counted
  in that segment and changes no other record; when it is a metric line its value is
  stored under its label, and when it is an answer line among the first six it is stored
  as the answer.  A report with two header lines, with lines that are not header lines
  before, between and after them, gives exactly two records: the record of the first
  header line, built from the kept lines between the two, and the record of the second
  header line, built from the kept lines after it; the counter of a segment is the number
  of its kept lines.  What stands before the first header line is dropped.
\<close>

theorem two_segments:
  "(trim raw = [] \<or> startsWith (trim raw) ''```'' \<longrightarrow> loopBody st raw = st)
   \<and> readModels ls = readModels (filter keepLine ls)
   \<and> (keepLine raw \<and> \<not> isHeaderLine raw \<and> cur st = Some c \<longrightarrow>
        afterHeaderLineCount (loopBody st raw) = afterHeaderLineCount st + 1
        \<and> models (loopBody st raw) = models st
        \<and> (\<exists>c'. cur (loopBody st raw) = Some c' \<and> name c' = name c)
        \<and> (\<not> isEarlyAnswer (trim raw) \<and> re_match metricRe raw = Some m \<longrightarrow>
             cur (loopBody st raw)
               = Some (c\<lparr>metrics := (metrics c)(toLowerCase (group1 m) \<mapsto> trim (group2 m))\<rparr>))
        \<and> (\<not> truthy_str (answerLine c) \<and> afterHeaderLineCount st < 6
             \<and> isEarlyAnswer (trim raw) \<longrightarrow>
             cur (loopBody st raw) = Some (captureAnswer c raw)))
   \<and> ((\<forall>l \<in> set pre. \<not> isHeaderLine l) \<longrightarrow> readModels pre = [])
   \<and> (isHeaderLine h1 \<and> isHeaderLine h2 \<and> (\<forall>l \<in> set (pre @ b1 @ b2). \<not> isHeaderLine l) \<longrightarrow>
        readModels (pre @ h1 # b1 @ h2 # b2)
          = readModels (h1 # filter keepLine b1) @ readModels (h2 # filter keepLine b2)
        \<and> length (readModels (h1 # filter keepLine b1)) = 1
        \<and> length (readModels (h2 # filter keepLine b2)) = 1
        \<and> map name (readModels (pre @ h1 # b1 @ h2 # b2)) = [trim h1, trim h2]
        \<and> afterHeaderLineCount
             (foldl loopBody \<lparr>models = [], cur = None, afterHeaderLineCount = 0\<rparr> (pre @ h1 # b1))
            = length (filter keepLine b1)
        \<and> afterHeaderLineCount
             (foldl loopBody \<lparr>models = [], cur = None, afterHeaderLineCount = 0\<rparr>
                (pre @ h1 # b1 @ h2 # b2))
            = length (filter keepLine b2))"
proof -
  let ?init = "\<lparr>models = [], cur = None, afterHeaderLineCount = 0\<rparr>"
  have 1: "trim raw = [] \<or> startsWith (trim raw) ''```'' \<longrightarrow> loopBody st raw = st"
    using loopBody_skip fence_prefix_skipped blank_line_skipped by blast
  have 2: "keepLine raw \<and> \<not> isHeaderLine raw \<and> cur st = Some c \<longrightarrow>
        afterHeaderLineCount (loopBody st raw) = afterHeaderLineCount st + 1
        \<and> models (loopBody st raw) = models st
        \<and> (\<exists>c'. cur (loopBody st raw) = Some c' \<and> name c' = name c)
        \<and> (\<not> isEarlyAnswer (trim raw) \<and> re_match metricRe raw = Some m \<longrightarrow>
             cur (loopBody st raw)
               = Some (c\<lparr>metrics := (metrics c)(toLowerCase (group1 m) \<mapsto> trim (group2 m))\<rparr>))
        \<and> (\<not> truthy_str (answerLine c) \<and> afterHeaderLineCount st < 6
             \<and> isEarlyAnswer (trim raw) \<longrightarrow>
             cur (loopBody st raw) = Some (captureAnswer c raw))"
    using loopBody_kept[of raw st c] loopBody_metric[of raw st c m] loopBody_answer[of raw st c]
    by blast
  have 4: "(\<forall>l \<in> set pre. \<not> isHeaderLine l) \<longrightarrow> readModels pre = []"
  proof
    assume p: "\<forall>l \<in> set pre. \<not> isHeaderLine l"
    have "foldl loopBody ?init pre = ?init"
      by (rule fold_before_first_header[OF p]) simp
    then show "readModels pre = []" by (simp add: readModels_def Let_def pushCur_def)
  qed
  have 3: "readModels (pre @ h1 # b1 @ h2 # b2)
          = readModels (h1 # filter keepLine b1) @ readModels (h2 # filter keepLine b2)
        \<and> length (readModels (h1 # filter keepLine b1)) = 1
        \<and> length (readModels (h2 # filter keepLine b2)) = 1
        \<and> map name (readModels (pre @ h1 # b1 @ h2 # b2)) = [trim h1, trim h2]
        \<and> afterHeaderLineCount (foldl loopBody ?init (pre @ h1 # b1)) = length (filter keepLine b1)
        \<and> afterHeaderLineCount (foldl loopBody ?init (pre @ h1 # b1 @ h2 # b2))
            = length (filter keepLine b2)"
    if h1: "isHeaderLine h1" and h2: "isHeaderLine h2"
      and nh: "\<forall>l \<in> set (pre @ b1 @ b2). \<not> isHeaderLine l"
  proof -
    from nh have p: "\<forall>l \<in> set pre. \<not> isHeaderLine l" and b1: "\<forall>l \<in> set b1. \<not> isHeaderLine l"
      and b2: "\<forall>l \<in> set b2. \<not> isHeaderLine l" by auto
    from readModels_one_segment[OF h1 b1] obtain c1 n1 where c1: "name c1 = trim h1"
      "readModels (h1 # filter keepLine b1) = [c1]"
      and f1: "\<forall>ms. foldl loopBody \<lparr>models = ms, cur = Some (freshModel (trim h1)),
                                    afterHeaderLineCount = 0\<rparr> b1
                 = \<lparr>models = ms, cur = Some c1, afterHeaderLineCount = n1\<rparr>" by blast
    from readModels_one_segment[OF h2 b2] obtain c2 n2 where c2: "name c2 = trim h2"
      "readModels (h2 # filter keepLine b2) = [c2]"
      and f2: "\<forall>ms. foldl loopBody \<lparr>models = ms, cur = Some (freshModel (trim h2)),
                                    afterHeaderLineCount = 0\<rparr> b2
                 = \<lparr>models = ms, cur = Some c2, afterHeaderLineCount = n2\<rparr>" by blast
    have a: "foldl loopBody ?init pre = ?init"
      by (rule fold_before_first_header[OF p]) simp
    have s1: "loopBody ?init h1
            = \<lparr>models = [], cur = Some (freshModel (trim h1)), afterHeaderLineCount = 0\<rparr>"
      by (simp add: loopBody_header[OF h1] pushCur_def)
    have e1: "foldl loopBody ?init (pre @ h1 # b1)
            = \<lparr>models = [], cur = Some c1, afterHeaderLineCount = n1\<rparr>"
      using f1 by (simp add: a s1)
    have s2: "loopBody \<lparr>models = [], cur = Some c1, afterHeaderLineCount = n1\<rparr> h2
            = \<lparr>models = [c1], cur = Some (freshModel (trim h2)), afterHeaderLineCount = 0\<rparr>"
      by (simp add: loopBody_header[OF h2] pushCur_def)
    have "foldl loopBody ?init (pre @ h1 # b1 @ h2 # b2)
            = foldl loopBody (loopBody (foldl loopBody ?init (pre @ h1 # b1)) h2) b2"
      by simp
    also have "\<dots> = \<lparr>models = [c1], cur = Some c2, afterHeaderLineCount = n2\<rparr>"
      unfolding e1 s2 using f2 by blast
    finally have e2: "foldl loopBody ?init (pre @ h1 # b1 @ h2 # b2)
            = \<lparr>models = [c1], cur = Some c2, afterHeaderLineCount = n2\<rparr>" .
    then have r: "readModels (pre @ h1 # b1 @ h2 # b2) = [c1, c2]"
      by (simp add: readModels_def Let_def pushCur_def)
    have "afterHeaderLineCount (foldl loopBody \<lparr>models = [], cur = Some (freshModel (trim h1)),
                                    afterHeaderLineCount = 0\<rparr> b1)
            = length (filter keepLine b1)"
      using fold_count[OF b1, of _ "freshModel (trim h1)"] by simp
    with f1 have n1: "n1 = length (filter keepLine b1)" by simp
    have "afterHeaderLineCount (foldl loopBody \<lparr>models = [], cur = Some (freshModel (trim h2)),
                                    afterHeaderLineCount = 0\<rparr> b2)
            = length (filter keepLine b2)"
      using fold_count[OF b2, of _ "freshModel (trim h2)"] by simp
    with f2 have n2: "n2 = length (filter keepLine b2)" by simp
    from r c1 c2 e1 e2 n1 n2 show ?thesis by simp
  qed
  from 1 readModels_skip[of ls] 2 4 3 show ?thesis by blast
qed

lemma two_segments_headers:
  "isHeaderLine ''modelA:v1'' \<and> isHeaderLine '' modelB:v1''
   \<and> \<not> isHeaderLine ''junk 12345'' \<and> \<not> isHeaderLine '''' \<and> \<not> isHeaderLine ''```''
   \<and> \<not> isHeaderLine ''Step 5: 3600'' \<and> \<not> isHeaderLine ''```json''
   \<and> \<not> isHeaderLine ''eval count: 5''"
  by code_simp

lemma two_segments_trims: "trim ''modelA:v1'' = ''modelA:v1'' \<and> trim '' modelB:v1'' = ''modelB:v1''"
  by code_simp

lemma two_segments_kept:
  "filter keepLine ['''', ''```'', ''Step 5: 3600''] = [''Step 5: 3600'']
   \<and> filter keepLine [''```json'', ''eval count: 5''] = [''eval count: 5'']"
  by code_simp

lemma two_segments_bodies:
  "list_all (\<lambda>l. \<not> isHeaderLine l)
     ([''junk 12345''] @ ['''', ''```'', ''Step 5: 3600''] @ [''```json'', ''eval count: 5''])
   \<and> list_all (\<lambda>l. \<not> isHeaderLine l) [''junk 12345'']"
  by code_simp

lemma fence_trim: "startsWith (trim ''```json'') ''```''"
  by code_simp

lemma first_segment_read:
  "map answerLine (readModels [''modelA:v1'', ''Step 5: 3600'']) = [Some ''Step 5: 3600'']
   \<and> map numericAnswer (readModels [''modelA:v1'', ''Step 5: 3600'']) = [Some (Fin 3600)]
   \<and> map (\<lambda>m. metrics m ''eval count'') (readModels [''modelA:v1'', ''Step 5: 3600'']) = [None]"
  by code_simp

lemma second_segment_read:
  "map answerLine (readModels ['' modelB:v1'', ''eval count: 5'']) = [None]
   \<and> map numericAnswer (readModels ['' modelB:v1'', ''eval count: 5'']) = [None]
   \<and> map (\<lambda>m. metrics m ''eval count'') (readModels ['' modelB:v1'', ''eval count: 5''])
       = [Some ''5'']"
  by code_simp

lemma answer_line_kept:
  "keepLine ''Step 5: 3600'' \<and> isEarlyAnswer (trim ''Step 5: 3600'')"
  by code_simp

lemma metric_line_kept:
  "keepLine ''eval count: 5'' \<and> \<not> isEarlyAnswer (trim ''eval count: 5'')"
  by code_simp

lemma metric_line_match:
  "re_match metricRe ''eval count: 5''
     = Some (([], ''eval count: 5'', []), (''5 :tnuoc lave'', [], [(2, ''5''), (1, ''eval count'')]))"
  by code_simp

lemma metric_line_groups:
  "toLowerCase (group1 (([], ''eval count: 5'', []),
                        (''5 :tnuoc lave'', [], [(2, ''5''), (1, ''eval count'')]))) = ''eval count''
   \<and> trim (group2 (([], ''eval count: 5'', []),
                    (''5 :tnuoc lave'', [], [(2, ''5''), (1, ''eval count'')]))) = ''5''"
  by code_simp

theorem two_segments_witness:
  "isHeaderLine ''modelA:v1'' \<and> isHeaderLine '' modelB:v1''
   \<and> readModels ([''junk 12345''] @ ''modelA:v1'' # ['''', ''```'', ''Step 5: 3600'']
                   @ '' modelB:v1'' # [''```json'', ''eval count: 5''])
       = readModels [''modelA:v1'', ''Step 5: 3600''] @ readModels ['' modelB:v1'', ''eval count: 5'']
   \<and> map name (readModels ([''junk 12345''] @ ''modelA:v1'' # ['''', ''```'', ''Step 5: 3600'']
                   @ '' modelB:v1'' # [''```json'', ''eval count: 5'']))
       = [''modelA:v1'', ''modelB:v1'']
   \<and> map answerLine (readModels ([''junk 12345''] @ ''modelA:v1'' # ['''', ''```'', ''Step 5: 3600'']
                   @ '' modelB:v1'' # [''```json'', ''eval count: 5'']))
       = [Some ''Step 5: 3600'', None]
   \<and> map numericAnswer (readModels ([''junk 12345''] @ ''modelA:v1'' # ['''', ''```'', ''Step 5: 3600'']
                   @ '' modelB:v1'' # [''```json'', ''eval count: 5'']))
       = [Some (Fin 3600), None]
   \<and> map (\<lambda>m. metrics m ''eval count'')
         (readModels ([''junk 12345''] @ ''modelA:v1'' # ['''', ''```'', ''Step 5: 3600'']
                   @ '' modelB:v1'' # [''```json'', ''eval count: 5'']))
       = [None, Some ''5'']
   \<and> afterHeaderLineCount
        (foldl loopBody \<lparr>models = [], cur = None, afterHeaderLineCount = 0\<rparr>
           ([''junk 12345''] @ ''modelA:v1'' # ['''', ''```'', ''Step 5: 3600''])) = 1
   \<and> afterHeaderLineCount
        (foldl loopBody \<lparr>models = [], cur = None, afterHeaderLineCount = 0\<rparr>
           ([''junk 12345''] @ ''modelA:v1'' # ['''', ''```'', ''Step 5: 3600'']
                   @ '' modelB:v1'' # [''```json'', ''eval count: 5''])) = 1
   \<and> readModels [''junk 12345''] = []
   \<and> loopBody \<lparr>models = [], cur = Some (freshModel ''modelB:v1''), afterHeaderLineCount = 0\<rparr>
        ''```json''
       = \<lparr>models = [], cur = Some (freshModel ''modelB:v1''), afterHeaderLineCount = 0\<rparr>
   \<and> afterHeaderLineCount
        (loopBody \<lparr>models = [], cur = Some (freshModel ''modelA:v1''), afterHeaderLineCount = 0\<rparr>
           ''Step 5: 3600'') = 1
   \<and> cur (loopBody \<lparr>models = [], cur = Some (freshModel ''modelA:v1''), afterHeaderLineCount = 0\<rparr>
           ''Step 5: 3600'')
       = Some (captureAnswer (freshModel ''modelA:v1'') ''Step 5: 3600'')
   \<and> afterHeaderLineCount
        (loopBody \<lparr>models = [], cur = Some (freshModel ''modelB:v1''), afterHeaderLineCount = 0\<rparr>
           ''eval count: 5'') = 1
   \<and> cur (loopBody \<lparr>models = [], cur = Some (freshModel ''modelB:v1''), afterHeaderLineCount = 0\<rparr>
           ''eval count: 5'')
       = Some ((freshModel ''modelB:v1'')
                 \<lparr>metrics := (metrics (freshModel ''modelB:v1''))(''eval count'' \<mapsto> ''5'')\<rparr>)"
proof -
  let ?init = "\<lparr>models = [], cur = None, afterHeaderLineCount = 0\<rparr>"
  let ?pre = "[''junk 12345'']"
  let ?b1 = "['''', ''```'', ''Step 5: 3600'']"
  let ?b2 = "[''```json'', ''eval count: 5'']"
  let ?R = "?pre @ ''modelA:v1'' # ?b1 @ '' modelB:v1'' # ?b2"
  let ?SA = "\<lparr>models = [], cur = Some (freshModel ''modelA:v1''), afterHeaderLineCount = 0\<rparr>"
  let ?SB = "\<lparr>models = [], cur = Some (freshModel ''modelB:v1''), afterHeaderLineCount = 0\<rparr>"
  let ?M = "(([], ''eval count: 5'', []), (''5 :tnuoc lave'', [], [(2, ''5''), (1, ''eval count'')]))"
  from two_segments_headers have h1: "isHeaderLine ''modelA:v1''" and h2: "isHeaderLine '' modelB:v1''"
    and nA: "\<not> isHeaderLine ''Step 5: 3600''" and nB: "\<not> isHeaderLine ''eval count: 5''"
    by blast+
  note np = two_segments_bodies[THEN conjunct2, unfolded list_all_iff]
  note nh = two_segments_bodies[THEN conjunct1, unfolded list_all_iff]
  from two_segments_kept have k1: "filter keepLine ?b1 = [''Step 5: 3600'']"
    and k2: "filter keepLine ?b2 = [''eval count: 5'']" by blast+
  from two_segments_trims have t1: "trim ''modelA:v1'' = ''modelA:v1''"
    and t2: "trim '' modelB:v1'' = ''modelB:v1''" by blast+
  note seg = two_segments[of "''```json''" ?SB "[]" "freshModel ''modelB:v1''" ?M
      ?pre "''modelA:v1''" "'' modelB:v1''" ?b1 ?b2]
  note seg5 = seg[THEN conjunct2, THEN conjunct2, THEN conjunct2, THEN conjunct2, THEN mp,
      OF conjI[OF h1 conjI[OF h2 nh]]]
  note r0 = seg5[THEN conjunct1]
    and n0 = seg5[THEN conjunct2, THEN conjunct2, THEN conjunct2, THEN conjunct1]
    and c1 = seg5[THEN conjunct2, THEN conjunct2, THEN conjunct2, THEN conjunct2, THEN conjunct1]
    and c2 = seg5[THEN conjunct2, THEN conjunct2, THEN conjunct2, THEN conjunct2, THEN conjunct2]
  note r = r0[unfolded k1 k2] and n = n0[unfolded t1 t2]
  have c1': "afterHeaderLineCount (foldl loopBody ?init (?pre @ ''modelA:v1'' # ?b1)) = 1"
    unfolding c1 k1 by simp
  have c2': "afterHeaderLineCount (foldl loopBody ?init ?R) = 1"
    unfolding c2 k2 by simp
  note d = seg[THEN conjunct2, THEN conjunct2, THEN conjunct2, THEN conjunct1, THEN mp, OF np]
  note s = seg[THEN conjunct1, THEN mp, OF disjI2[OF fence_trim]]
  note fa = first_segment_read[THEN conjunct1]
    and fb = first_segment_read[THEN conjunct2, THEN conjunct1]
    and fc = first_segment_read[THEN conjunct2, THEN conjunct2]
    and sa = second_segment_read[THEN conjunct1]
    and sb = second_segment_read[THEN conjunct2, THEN conjunct1]
    and sc = second_segment_read[THEN conjunct2, THEN conjunct2]
  have a: "map answerLine (readModels ?R) = [Some ''Step 5: 3600'', None]"
    unfolding r map_append fa sa by simp
  have b: "map numericAnswer (readModels ?R) = [Some (Fin 3600), None]"
    unfolding r map_append fb sb by simp
  have e: "map (\<lambda>m. metrics m ''eval count'') (readModels ?R) = [None, Some ''5'']"
    unfolding r map_append fc sc by simp
  have curA: "cur ?SA = Some (freshModel ''modelA:v1'')" and cntA: "afterHeaderLineCount ?SA = 0"
    and curB: "cur ?SB = Some (freshModel ''modelB:v1'')" and cntB: "afterHeaderLineCount ?SB = 0"
    by simp_all
  have freshA: "\<not> truthy_str (answerLine (freshModel ''modelA:v1''))"
    by (simp add: freshModel_def truthy_str_def)
  note lineA = two_segments[of "''Step 5: 3600''" ?SA "[]" "freshModel ''modelA:v1''" ?M
      ?pre "''modelA:v1''" "'' modelB:v1''" ?b1 ?b2]
  from answer_line_kept have kA: "keepLine ''Step 5: 3600''"
    and eA: "isEarlyAnswer (trim ''Step 5: 3600'')" by blast+
  note lineA3 = lineA[THEN conjunct2, THEN conjunct2, THEN conjunct1, THEN mp,
      OF conjI[OF kA conjI[OF nA curA]]]
  note A1 = lineA3[THEN conjunct1]
    and A2 = lineA3[THEN conjunct2, THEN conjunct2, THEN conjunct2, THEN conjunct2]
  have A1': "afterHeaderLineCount (loopBody ?SA ''Step 5: 3600'') = 1"
    unfolding A1 cntA by simp
  have lt: "afterHeaderLineCount ?SA < 6" unfolding cntA by simp
  note A2' = A2[THEN mp, OF conjI[OF freshA conjI[OF lt eA]]]
  note lineB = two_segments[of "''eval count: 5''" ?SB "[]" "freshModel ''modelB:v1''" ?M
      ?pre "''modelA:v1''" "'' modelB:v1''" ?b1 ?b2]
  from metric_line_kept have kB: "keepLine ''eval count: 5''"
    and eB: "\<not> isEarlyAnswer (trim ''eval count: 5'')" by blast+
  note lineB3 = lineB[THEN conjunct2, THEN conjunct2, THEN conjunct1, THEN mp,
      OF conjI[OF kB conjI[OF nB curB]]]
  note B1 = lineB3[THEN conjunct1]
    and B2 = lineB3[THEN conjunct2, THEN conjunct2, THEN conjunct2, THEN conjunct1]
  have B1': "afterHeaderLineCount (loopBody ?SB ''eval count: 5'') = 1"
    unfolding B1 cntB by simp
  from metric_line_groups have g1: "toLowerCase (group1 ?M) = ''eval count''"
    and g2: "trim (group2 ?M) = ''5''" by blast+
  note B2' = B2[THEN mp, OF conjI[OF eB metric_line_match], unfolded g1 g2]
  from h1 h2 r n a b e c1' c2' d s A1' A2' B1' B2' show ?thesis by (intro conjI)
qed

lemma fence_prefix_line:
  "trim ''```json'' \<noteq> [] \<and> trim ''```json'' \<noteq> ''```'' \<and> \<not> keepLine ''```json''
   \<and> \<not> isHeaderLine ''```Step 5: 3600```'' \<and> \<not> keepLine ''```Step 5: 3600```''
   \<and> trim ''```Step 5: 3600```'' \<noteq> ''```''
   \<and> isEarlyAnswer (trim ''```Step 5: 3600```'')"
  by code_simp

lemma fence_prefix_not_counted:
  "afterHeaderLineCount (foldl loopBody \<lparr>models = [], cur = None, afterHeaderLineCount = 0\<rparr>
                           [''m:v'', ''```json'']) = 0
   \<and> afterHeaderLineCount (foldl loopBody \<lparr>models = [], cur = None, afterHeaderLineCount = 0\<rparr>
                           [''m:v'', ''json'']) = 1"
  by code_simp

lemma fence_prefix_window:
  "map answerLine
     (readModels [''m:v'', ''```json'', ''a'', ''b'', ''c'', ''d'', ''e'', ''the answer 42''])
     = [Some ''the answer 42'']
   \<and> map answerLine
       (readModels [''m:v'', ''json'', ''a'', ''b'', ''c'', ''d'', ''e'', ''the answer 42''])
     = [None]
   \<and> map answerLine (readModels [''m:v'', ''```Step 5: 3600```'']) = [None]"
  by code_simp

text \<open>
  The claim as stated fails: the lines that are skipped are not only those that are
  exactly the fence marker.  The line \<open>```json\<close> is not blank and is not the marker, yet
  it is skipped and is not counted among the body lines: after it the answer in the
  seventh line of the segment is still among the first six counted lines and is captured,
  which it is not after the line \<open>json\<close>.  The line \<open>```Step 5: 3600```\<close> is not the
  marker either and has the shape of an answer line, yet it is never body content.
\<close>

theorem fence_prefix_counterexample:
  "trim ''```json'' \<noteq> [] \<and> trim ''```json'' \<noteq> ''```'' \<and> \<not> keepLine ''```json''
   \<and> afterHeaderLineCount (foldl loopBody \<lparr>models = [], cur = None, afterHeaderLineCount = 0\<rparr>
                           [''m:v'', ''```json'']) = 0
   \<and> afterHeaderLineCount (foldl loopBody \<lparr>models = [], cur = None, afterHeaderLineCount = 0\<rparr>
                           [''m:v'', ''json'']) = 1
   \<and> map answerLine
       (readModels [''m:v'', ''```json'', ''a'', ''b'', ''c'', ''d'', ''e'', ''the answer 42''])
     = [Some ''the answer 42'']
   \<and> map answerLine
       (readModels [''m:v'', ''json'', ''a'', ''b'', ''c'', ''d'', ''e'', ''the answer 42''])
     = [None]
   \<and> trim ''```Step 5: 3600```'' \<noteq> ''```''
   \<and> isEarlyAnswer (trim ''```Step 5: 3600```'')
   \<and> \<not> isHeaderLine ''```Step 5: 3600```''
   \<and> map answerLine (readModels [''m:v'', ''```Step 5: 3600```'']) = [None]"
  using fence_prefix_line fence_prefix_not_counted fence_prefix_window by blast

section \<open>The early answer line\<close>

text \<open>
  C5, as the code has it.  Take a line that the loop keeps and that is not a header line,
  read while a model is open that has no answer line yet, as one of the first six body
  lines of the model.  If the line matches \<open>/Step\s*5:/i\<close>, \<open>/answer/i\<close> or
  \<open>/The\s+trains/i\<close>, the loop stores the trimmed line as \<open>answerLine\<close> and what
  \<open>extractNumberFromText\<close> makes of it as \<open>numericAnswer\<close>, counts the line, and goes on
  to the next line: the metrics of the model and the models closed so far stay as they
  are, also when the line has the shape of a metric line.
\<close>

theorem early_answer:
  assumes "keepLine raw" and "\<not> isModelHeader (trim raw)"
    and "cur st = Some c" and "\<not> truthy_str (answerLine c)"
    and "afterHeaderLineCount st + 1 \<le> 6"
    and "re_test step5Re (trim raw) \<or> re_test answerRe (trim raw) \<or> re_test theTrainsRe (trim raw)"
  shows "loopBody st raw =
           st\<lparr>cur := Some (c\<lparr>answerLine := Some (trim raw),
                               numericAnswer := extractNumberFromText (Some (trim raw))\<rparr>),
              afterHeaderLineCount := afterHeaderLineCount st + 1\<rparr>"
  using assms
  by (simp add: loopBody_def keepLine_def isEarlyAnswer_def captureAnswer_def Let_def)

lemma early_answer_line:
  "keepLine ''eval count: answer 42'' \<and> \<not> isModelHeader (trim ''eval count: answer 42'')
   \<and> re_test answerRe (trim ''eval count: answer 42'')
   \<and> re_match metricRe ''eval count: answer 42'' \<noteq> None
   \<and> trim ''eval count: answer 42'' = ''eval count: answer 42''"
  by code_simp

lemma early_answer_number: "extractNumberFromText (Some ''eval count: answer 42'') = Some (Fin 42)"
  by code_simp

theorem early_answer_witness:
  "re_match metricRe ''eval count: answer 42'' \<noteq> None
   \<and> loopBody \<lparr>models = [], cur = Some (freshModel ''m:v''), afterHeaderLineCount = 5\<rparr>
        ''eval count: answer 42''
     = \<lparr>models = [],
        cur = Some \<lparr>name = ''m:v'', answerLine = Some ''eval count: answer 42'',
                    numericAnswer = Some (Fin 42), metrics = Map.empty\<rparr>,
        afterHeaderLineCount = 6\<rparr>"
proof -
  let ?st = "\<lparr>models = [], cur = Some (freshModel ''m:v''), afterHeaderLineCount = 5\<rparr>"
  from early_answer_line have k: "keepLine ''eval count: answer 42''"
    and h: "\<not> isModelHeader (trim ''eval count: answer 42'')"
    and a: "re_test step5Re (trim ''eval count: answer 42'')
            \<or> re_test answerRe (trim ''eval count: answer 42'')
            \<or> re_test theTrainsRe (trim ''eval count: answer 42'')"
    and m: "re_match metricRe ''eval count: answer 42'' \<noteq> None"
    and t: "trim ''eval count: answer 42'' = ''eval count: answer 42''"
    by blast+
  have c: "cur ?st = Some (freshModel ''m:v'')" by simp
  have n: "\<not> truthy_str (answerLine (freshModel ''m:v''))"
    by (simp add: freshModel_def truthy_str_def)
  have s: "afterHeaderLineCount ?st + 1 \<le> 6" by simp
  note e = early_answer[OF k h c n s a, unfolded t early_answer_number]
  from e m show ?thesis by (simp add: freshModel_def)
qed

lemma padded_line:
  "map_option answerLine
     (cur (loopBody \<lparr>models = [], cur = Some (freshModel ''m:v''), afterHeaderLineCount = 0\<rparr>
             ''  Step 5: 3600''))
     = Some (Some ''Step 5: 3600'')"
  by code_simp

text \<open>
  The claim as stated fails on a line with blanks around it: what is stored is the
  trimmed line, not the line as it stands in the report.
\<close>

theorem answer_line_trimmed_counterexample:
  "map_option answerLine
     (cur (loopBody \<lparr>models = [], cur = Some (freshModel ''m:v''), afterHeaderLineCount = 0\<rparr>
             ''  Step 5: 3600''))
     = Some (Some ''Step 5: 3600'')
   \<and> map_option answerLine
     (cur (loopBody \<lparr>models = [], cur = Some (freshModel ''m:v''), afterHeaderLineCount = 0\<rparr>
             ''  Step 5: 3600''))
     \<noteq> Some (Some ''  Step 5: 3600'')"
  unfolding padded_line by simp

section \<open>Sorting the grid\<close>

lemma insertBy_all: "P x \<Longrightarrow> list_all P ys \<Longrightarrow> list_all P (insertBy cmp x ys)"
  by (induction ys) auto






lemma set_insertBy: "set (insertBy cmp x ys) = insert x (set ys)"
  by (induction ys) auto







subsection \<open>The comparison function is consistent, and the grid is sorted by it\<close>

lemma insertBy_sorted:
  assumes total: "\<And>a b. positive (cmp a b) \<Longrightarrow> \<not> positive (cmp b a)"
    and trans: "\<And>a b c. \<not> positive (cmp a b) \<Longrightarrow> \<not> positive (cmp b c) \<Longrightarrow> \<not> positive (cmp a c)"
  shows "sorted_wrt (\<lambda>a b. \<not> positive (cmp a b)) ys
         \<Longrightarrow> sorted_wrt (\<lambda>a b. \<not> positive (cmp a b)) (insertBy cmp x ys)"
proof (induction ys)
  case Nil
  show ?case by simp
next
  case (Cons y ys)
  show ?case
  proof (cases "positive (cmp x y)")
    case True
    from Cons have s: "sorted_wrt (\<lambda>a b. \<not> positive (cmp a b)) (insertBy cmp x ys)" by simp
    have "\<forall>z \<in> set (insertBy cmp x ys). \<not> positive (cmp y z)"
      using Cons.prems total[OF True] by (auto simp: set_insertBy)
    with True s show ?thesis by simp
  next
    case False
    have "\<forall>z \<in> set ys. \<not> positive (cmp x z)"
      using Cons.prems trans[OF False] by auto
    with False Cons.prems show ?thesis by simp
  qed
qed

lemma positive_compareModels:
  "positive (compareModels SORT a b) \<longleftrightarrow>
     (isMissing (getVal SORT a) \<and> \<not> isMissing (getVal SORT b))
     \<or> (\<exists>x y. getVal SORT a = Some x \<and> getVal SORT b = Some y \<and> x \<noteq> NaN \<and> y \<noteq> NaN
              \<and> (if sort_dir SORT = ''asc'' then numLess y x else numLess x y))"
proof (cases "getVal SORT a")
  case None
  then show ?thesis
    by (cases "getVal SORT b") (auto simp: compareModels_def Let_def positive_def isMissing_def isNaN_def)
next
  case (Some x)
  note a = Some
  show ?thesis
  proof (cases "getVal SORT b")
    case None
    with a show ?thesis by (auto simp: compareModels_def Let_def positive_def isMissing_def isNaN_def)
  next
    case (Some y)
    with a show ?thesis
      by (cases x; cases y)
         (simp_all add: compareModels_def Let_def positive_def isMissing_def isNaN_def
                     Number_null_def num_neg_def)
  qed
qed

lemma isMissing_Some: "isMissing (Some x) \<longleftrightarrow> x = NaN"
  by (simp add: isMissing_def isNaN_def)

lemma numLess_asym: "numLess x y \<Longrightarrow> \<not> numLess y x"
  by (cases x; cases y) simp_all

lemma numLess_trans:
  "y \<noteq> NaN \<Longrightarrow> \<not> numLess y x \<Longrightarrow> \<not> numLess z y \<Longrightarrow> \<not> numLess z x"
  by (cases x; cases y; cases z) simp_all

lemma compareModels_total:
  "positive (compareModels SORT a b) \<Longrightarrow> \<not> positive (compareModels SORT b a)"
  unfolding positive_compareModels
  by (auto simp: isMissing_Some dest: numLess_asym split: if_splits)

lemma present_cases:
  assumes "\<not> isMissing v"
  shows "\<exists>x. v = Some x \<and> x \<noteq> NaN"
  using assms by (cases v) (simp_all add: isMissing_def isNaN_def)

lemma compareModels_trans:
  assumes "\<not> positive (compareModels SORT a b)" "\<not> positive (compareModels SORT b c)"
  shows "\<not> positive (compareModels SORT a c)"
proof (cases "isMissing (getVal SORT c)")
  case True
  then show ?thesis unfolding positive_compareModels by (auto simp: isMissing_Some)
next
  case False
  with assms(2) have mb: "\<not> isMissing (getVal SORT b)" unfolding positive_compareModels by blast
  with assms(1) have ma: "\<not> isMissing (getVal SORT a)" unfolding positive_compareModels by blast
  from present_cases[OF ma] present_cases[OF mb] present_cases[OF False]
  obtain x y z where v: "getVal SORT a = Some x" "getVal SORT b = Some y"
    "getVal SORT c = Some z" and n: "x \<noteq> NaN" "y \<noteq> NaN" "z \<noteq> NaN" by blast
  show ?thesis
  proof (cases "sort_dir SORT = ''asc''")
    case True
    with assms v n have "\<not> numLess y x" "\<not> numLess z y"
      unfolding positive_compareModels by (simp_all add: isMissing_Some)
    with n have "\<not> numLess z x" using numLess_trans by blast
    with True v n show ?thesis unfolding positive_compareModels by (simp add: isMissing_Some)
  next
    case d: False
    with assms v n have "\<not> numLess x y" "\<not> numLess y z"
      unfolding positive_compareModels by (simp_all add: isMissing_Some)
    with n have "\<not> numLess x z" using numLess_trans by blast
    with d v n show ?thesis unfolding positive_compareModels by (simp add: isMissing_Some)
  qed
qed

lemma renderGrid_sorted:
  "sorted_wrt (\<lambda>a b. \<not> positive (compareModels SORT a b)) (renderGrid SORT ms flt)"
proof -
  have "sorted_wrt (\<lambda>a b. \<not> positive (compareModels SORT a b)) (sortBy (compareModels SORT) xs)"
    for xs
  proof (induction xs)
    case Nil
    show ?case by (simp add: sortBy_def)
  next
    case (Cons x xs)
    have "sorted_wrt (\<lambda>a b. \<not> positive (compareModels SORT a b))
            (insertBy (compareModels SORT) x (sortBy (compareModels SORT) xs))"
      by (rule insertBy_sorted[OF compareModels_total compareModels_trans Cons])
    then show ?case by (simp add: sortBy_def)
  qed
  then show ?thesis by (simp add: renderGrid_def Let_def)
qed

section \<open>The two revisions read a report alike\<close>

lemma EXPECTED_ANSWER_2_eq: "EXPECTED_ANSWER_2 = EXPECTED_ANSWER"
  by (simp add: EXPECTED_ANSWER_2_def EXPECTED_ANSWER_def)

lemma durationSeconds_2_eq: "durationSeconds_2 = durationSeconds"
  by (intro ext) (unfold durationSeconds_2_def durationSeconds_def , rule refl)

lemma parseDurationToSeconds_2_eq: "parseDurationToSeconds_2 = parseDurationToSeconds"
  by (intro ext) (unfold parseDurationToSeconds_2_def parseDurationToSeconds_def durationSeconds_2_eq, rule refl)

lemma extractNumberFromText_2_eq: "extractNumberFromText_2 = extractNumberFromText"
  by (intro ext) (unfold extractNumberFromText_2_def extractNumberFromText_def , rule refl)

lemma isModelHeader_2_eq: "isModelHeader_2 = isModelHeader"
  by (intro ext) (unfold isModelHeader_2_def isModelHeader_def , rule refl)

lemma isEarlyAnswer_2_eq: "isEarlyAnswer_2 = isEarlyAnswer"
  by (intro ext) (unfold isEarlyAnswer_2_def isEarlyAnswer_def , rule refl)

lemma captureAnswer_2_eq: "captureAnswer_2 = captureAnswer"
  by (intro ext) (unfold captureAnswer_2_def captureAnswer_def extractNumberFromText_2_eq, rule refl)

lemma pushCur_2_eq: "pushCur_2 = pushCur"
  by (intro ext) (unfold pushCur_2_def pushCur_def , rule refl)

lemma loopBody_2_eq: "loopBody_2 = loopBody"
  by (intro ext) (unfold loopBody_2_def loopBody_def isModelHeader_2_eq isEarlyAnswer_2_eq captureAnswer_2_eq pushCur_2_eq, rule refl)

lemma readModels_2_eq: "readModels_2 = readModels"
  by (intro ext) (unfold readModels_2_def readModels_def loopBody_2_eq pushCur_2_eq, rule refl)

lemma countOf_2_eq: "countOf_2 = countOf"
  by (intro ext) (unfold countOf_2_def countOf_def , rule refl)

lemma rateOf_2_eq: "rateOf_2 = rateOf"
  by (intro ext) (unfold rateOf_2_def rateOf_def , rule refl)

lemma normalize_2_eq: "normalize_2 = normalize"
  by (intro ext) (unfold normalize_2_def normalize_def parseDurationToSeconds_2_eq countOf_2_eq rateOf_2_eq EXPECTED_ANSWER_2_eq, rule refl)

lemma parseReport_2_eq: "parseReport_2 = parseReport"
  by (intro ext) (unfold parseReport_2_def parseReport_def normalize_2_eq readModels_2_eq, rule refl)

lemma loadData_2_eq: "loadData_2 = loadData"
  by (intro ext) (unfold loadData_2_def loadData_def parseReport_2_eq, rule refl)

text \<open>
  C10.  On every argument, \<open>parseDurationToSeconds\<close>, \<open>extractNumberFromText\<close> and
  \<open>loadData\<close> (splitting into lines, building the records, normalizing them) of the
  first revision return what the functions of the same names in the second revision
  return.
\<close>

theorem revisions_agree:
  "parseDurationToSeconds raw = parseDurationToSeconds_2 raw
   \<and> extractNumberFromText t = extractNumberFromText_2 t
   \<and> loopBody st l = loopBody_2 st l
   \<and> normalize m = normalize_2 m
   \<and> loadData res = loadData_2 res"
  by (simp add: parseDurationToSeconds_2_eq extractNumberFromText_2_eq loopBody_2_eq
                normalize_2_eq loadData_2_eq)

end
